theory Spec2Isabelle
  imports Complex_Main "HOL-Library.Sublist" "HOL-Library.Monad_Syntax"
begin

section \<open>Strings\<close>

text \<open>
  A JavaScript string is a sequence of UTF-16 code units. The model uses \<^typ>\<open>string\<close>:
  every \<^typ>\<open>char\<close> stands for the code unit with the same number, so the strings of the
  model are the JavaScript strings over the code units U+0000 .. U+00FF (ASCII and the
  Latin-1 supplement). On this range the built-ins used by the services are closed and
  are written out below: the classes \<open>\w\<close> and \<open>\s\<close> of regular expressions without the
  \<open>u\<close> flag, \<open>String.prototype.trim\<close>, \<open>toLowerCase\<close>, \<open>includes\<close>, \<open>substring\<close> and
  \<open>split\<close> with a separator of the form \<open>[...]+\<close>.
\<close>

definition code_unit :: "char \<Rightarrow> nat" where
  "code_unit c = of_char c"

definition is_word_char :: "char \<Rightarrow> bool" where
  \<comment> \<open>the class \<open>\w\<close>, that is \<open>[A-Za-z0-9_]\<close>\<close>
  "is_word_char c =
     (let n = code_unit c in
      (65 \<le> n \<and> n \<le> 90) \<or> (97 \<le> n \<and> n \<le> 122) \<or> (48 \<le> n \<and> n \<le> 57) \<or> n = 95)"

definition is_space_char :: "char \<Rightarrow> bool" where
  \<comment> \<open>the class \<open>\s\<close> (WhiteSpace and LineTerminator): TAB, LF, VT, FF, CR, SP, NBSP\<close>
  "is_space_char c =
     (let n = code_unit c in (9 \<le> n \<and> n \<le> 13) \<or> n = 32 \<or> n = 160)"

definition lower_char :: "char \<Rightarrow> char" where
  \<comment> \<open>the lower-case mapping of Unicode on U+0000 .. U+00FF: \<open>A-Z\<close>, and U+00C0 .. U+00DE
      without the multiplication sign U+00D7\<close>
  "lower_char c =
     (let n = code_unit c in
      if (65 \<le> n \<and> n \<le> 90) \<or> (192 \<le> n \<and> n \<le> 222 \<and> n \<noteq> 215)
      then char_of (n + 32) else c)"

definition toLowerCase :: "string \<Rightarrow> string" where
  "toLowerCase s = map lower_char s"

definition trim :: "string \<Rightarrow> string" where
  "trim s = rev (dropWhile is_space_char (rev (dropWhile is_space_char s)))"

fun str_includes :: "string \<Rightarrow> string \<Rightarrow> bool" where
  \<comment> \<open>\<open>s.includes(w)\<close>: \<open>w\<close> occurs in \<open>s\<close> as a contiguous substring\<close>
  "str_includes [] w = (w = [])"
| "str_includes (c # cs) w = (prefix w (c # cs) \<or> str_includes cs w)"

definition substring0 :: "string \<Rightarrow> nat \<Rightarrow> string" where
  \<comment> \<open>\<open>s.substring(0, n)\<close>\<close>
  "substring0 s n = take n s"

text \<open>
  \<open>s.split(/[...]+/)\<close>: the scan of \<open>String.prototype.split\<close> for a separator that matches
  a maximal non-empty run of characters of one class. \<open>cur\<close> is the piece collected since
  the end of the last separator. A separator at the very beginning or end of the string
  leaves an empty piece there, and the empty string splits into one empty piece.
\<close>

function split_runs :: "(char \<Rightarrow> bool) \<Rightarrow> string \<Rightarrow> string \<Rightarrow> string list" where
  "split_runs sep cur [] = [cur]"
| "split_runs sep cur (c # cs) =
     (if sep c then cur # split_runs sep [] (dropWhile sep cs)
      else split_runs sep (cur @ [c]) cs)"
  by pat_completeness auto
termination
  by (relation "measure (\<lambda>(sep, cur, s). length s)")
     (auto simp: length_dropWhile_le less_Suc_eq_le)

definition split_re :: "(char \<Rightarrow> bool) \<Rightarrow> string \<Rightarrow> string list" where
  "split_re sep s = split_runs sep [] s"

section \<open>Dates: \<open>toISOString\<close> and \<open>new Date(string)\<close>\<close>

text \<open>
  The value of a \<open>createdAt\<close> property. A \<open>Date\<close> object holds a time value: a whole
  number of milliseconds since the epoch, of absolute value at most 8.64e15, or NaN (an
  "Invalid Date"). The property can also hold \<open>undefined\<close>: \<open>Partial\<close> admits a property
  that is present with the value \<open>undefined\<close>, and the spread in \<open>addDocument\<close> of
  ragService.ts copies it over the default.
\<close>

datatype date = TimeValue int | Invalid_Date | Undefined_Date

text \<open>
  \<open>Date.prototype.toISOString\<close> and the \<open>Date\<close> constructor are built-ins of the JavaScript
  runtime, not code of the repository. They are modelled after ECMA-262 (Time Values and
  Time Range, Date Time String Format), with the names of its abstract operations.
\<close>

definition msPerDay :: int where "msPerDay = 86400000"
definition msPerHour :: int where "msPerHour = 3600000"
definition msPerMinute :: int where "msPerMinute = 60000"
definition msPerSecond :: int where "msPerSecond = 1000"

definition maxTimeValue :: int where "maxTimeValue = 8640000000000000"

definition Day :: "int \<Rightarrow> int" where
  "Day t = t div msPerDay"

definition TimeWithinDay :: "int \<Rightarrow> int" where
  "TimeWithinDay t = t mod msPerDay"

definition DaysInYear :: "int \<Rightarrow> int" where
  "DaysInYear y =
     (if y mod 4 \<noteq> 0 then 365 else if y mod 100 \<noteq> 0 then 366
      else if y mod 400 \<noteq> 0 then 365 else 366)"

definition DayFromYear :: "int \<Rightarrow> int" where
  "DayFromYear y =
     365 * (y - 1970) + (y - 1969) div 4 - (y - 1901) div 100 + (y - 1601) div 400"

lemma div_step:
  fixes a k :: int
  assumes "0 < k"
  shows "a div k \<le> (a + 1) div k" and "(a + 1) div k \<le> a div k + 1"
proof -
  show "a div k \<le> (a + 1) div k"
    using assms by (intro zdiv_mono1) auto
  have "(a + 1) div k \<le> (a + k) div k"
    using assms by (intro zdiv_mono1) auto
  also have "(a + k) div k = a div k + 1"
    using assms by simp
  finally show "(a + 1) div k \<le> a div k + 1" .
qed

lemma DayFromYear_step: "DayFromYear y < DayFromYear (y + 1)"
proof -
  define a a' b b' c c' where "a = (y - 1969) div 4" and "a' = (y + 1 - 1969) div 4"
    and "b = (y - 1901) div 100" and "b' = (y + 1 - 1901) div 100"
    and "c = (y - 1601) div 400" and "c' = (y + 1 - 1601) div 400"
  have "a \<le> a'"
    unfolding a_def a'_def using div_step(1) [of 4 "y - 1969"] by (simp add: algebra_simps)
  moreover have "b' \<le> b + 1"
    unfolding b_def b'_def using div_step(2) [of 100 "y - 1901"] by (simp add: algebra_simps)
  moreover have "c \<le> c'"
    unfolding c_def c'_def using div_step(1) [of 400 "y - 1601"] by (simp add: algebra_simps)
  moreover have "DayFromYear y = 365 * (y - 1970) + a - b + c"
    by (simp add: DayFromYear_def a_def b_def c_def)
  moreover have "DayFromYear (y + 1) = 365 * (y + 1 - 1970) + a' - b' + c'"
    by (simp add: DayFromYear_def a'_def b'_def c'_def)
  ultimately show ?thesis
    by simp
qed

text \<open>
  \<open>YearFromTime(t)\<close> is the largest year \<open>y\<close> with \<open>DayFromYear(y) \<le> Day(t)\<close>. It is found
  by a search from the estimate \<open>1970 + Day(t) div 365\<close>: down while the year starts after
  the day, then up while the next year starts on or before it.
\<close>

function year_down :: "int \<Rightarrow> int \<Rightarrow> int" where
  "year_down d y = (if d < DayFromYear y then year_down d (y - 1) else y)"
  by pat_completeness auto
termination
proof (relation "measure (\<lambda>(d, y). nat (DayFromYear y - d))")
  show "wf (measure (\<lambda>(d, y). nat (DayFromYear y - d)))" by simp
next
  fix d y :: int
  assume "d < DayFromYear y"
  moreover have "DayFromYear (y - 1) < DayFromYear y"
    using DayFromYear_step [of "y - 1"] by simp
  ultimately show "((d, y - 1), (d, y)) \<in> measure (\<lambda>(d, y). nat (DayFromYear y - d))"
    by simp
qed

function year_up :: "int \<Rightarrow> int \<Rightarrow> int" where
  "year_up d y = (if DayFromYear (y + 1) \<le> d then year_up d (y + 1) else y)"
  by pat_completeness auto
termination
proof (relation "measure (\<lambda>(d, y). nat (d + 1 - DayFromYear (y + 1)))")
  show "wf (measure (\<lambda>(d, y). nat (d + 1 - DayFromYear (y + 1))))" by simp
next
  fix d y :: int
  assume "DayFromYear (y + 1) \<le> d"
  moreover have "DayFromYear (y + 1) < DayFromYear (y + 1 + 1)"
    by (rule DayFromYear_step)
  ultimately show "((d, y + 1), (d, y)) \<in> measure (\<lambda>(d, y). nat (d + 1 - DayFromYear (y + 1)))"
    by simp
qed

definition YearFromDay :: "int \<Rightarrow> int" where
  "YearFromDay d = year_up d (year_down d (1970 + d div 365))"

definition YearFromTime :: "int \<Rightarrow> int" where
  "YearFromTime t = YearFromDay (Day t)"

definition InLeapYear :: "int \<Rightarrow> bool" where
  "InLeapYear y = (DaysInYear y = 366)"

definition month_start :: "bool \<Rightarrow> nat \<Rightarrow> int" where
  \<comment> \<open>the number of days of the year before month \<open>m\<close> (0 is January, 12 the end of the year)\<close>
  "month_start leap m =
     [0, 31, 59, 90, 120, 151, 181, 212, 243, 273, 304, 334, 365] ! m
       + (if leap \<and> 2 \<le> m then 1 else 0)"

definition MonthFromDay :: "bool \<Rightarrow> int \<Rightarrow> nat" where
  \<comment> \<open>the table of \<open>MonthFromTime\<close>, on the day within the year\<close>
  "MonthFromDay leap dwy =
     (if dwy < month_start leap 1 then 0 else if dwy < month_start leap 2 then 1
      else if dwy < month_start leap 3 then 2 else if dwy < month_start leap 4 then 3
      else if dwy < month_start leap 5 then 4 else if dwy < month_start leap 6 then 5
      else if dwy < month_start leap 7 then 6 else if dwy < month_start leap 8 then 7
      else if dwy < month_start leap 9 then 8 else if dwy < month_start leap 10 then 9
      else if dwy < month_start leap 11 then 10 else 11)"

definition MakeDay :: "int \<Rightarrow> nat \<Rightarrow> int \<Rightarrow> int" where
  \<comment> \<open>for a month \<open>0 .. 11\<close>\<close>
  "MakeDay year month dt = DayFromYear year + month_start (InLeapYear year) month + dt - 1"

definition MakeTime :: "int \<Rightarrow> int \<Rightarrow> int \<Rightarrow> int \<Rightarrow> int" where
  "MakeTime hour minute sec ms = hour * msPerHour + minute * msPerMinute + sec * msPerSecond + ms"

definition MakeDate :: "int \<Rightarrow> int \<Rightarrow> int" where
  "MakeDate day time = day * msPerDay + time"

definition digit_char :: "nat \<Rightarrow> char" where
  "digit_char n = char_of (48 + n)"

definition is_digit :: "char \<Rightarrow> bool" where
  "is_digit c = (48 \<le> code_unit c \<and> code_unit c \<le> 57)"

definition digit_val :: "char \<Rightarrow> nat" where
  "digit_val c = code_unit c - 48"

fun pad :: "nat \<Rightarrow> nat \<Rightarrow> string" where
  \<comment> \<open>the last \<open>w\<close> decimal digits of \<open>n\<close>, with leading zeros\<close>
  "pad 0 n = []"
| "pad (Suc w) n = pad w (n div 10) @ [digit_char (n mod 10)]"

definition year_string :: "int \<Rightarrow> string" where
  \<comment> \<open>four digits for the years 0 .. 9999, else a sign and six digits\<close>
  "year_string y =
     (if 0 \<le> y \<and> y \<le> 9999 then pad 4 (nat y)
      else if y < 0 then CHR ''-'' # pad 6 (nat (- y)) else CHR ''+'' # pad 6 (nat y))"

definition iso_string :: "int \<Rightarrow> string" where
  \<comment> \<open>\<open>YYYY-MM-DDTHH:mm:ss.sssZ\<close> of a time value\<close>
  "iso_string t =
     (let y = YearFromTime t;
          dwy = Day t - DayFromYear y;
          m = MonthFromDay (InLeapYear y) dwy;
          dt = dwy - month_start (InLeapYear y) m + 1;
          tod = TimeWithinDay t
      in year_string y @ ''-'' @ pad 2 (m + 1) @ ''-'' @ pad 2 (nat dt) @ ''T''
         @ pad 2 (nat (tod div msPerHour)) @ '':''
         @ pad 2 (nat (tod div msPerMinute mod 60)) @ '':''
         @ pad 2 (nat (tod div msPerSecond mod 60)) @ ''.''
         @ pad 3 (nat (tod mod msPerSecond)) @ ''Z'')"

datatype error = RangeError | TypeError | Invalid_document_data | Vector_length_error

definition toISOString :: "date \<Rightarrow> error + string" where
  \<comment> \<open>\<open>d.toISOString()\<close>: a RangeError on an Invalid Date, a TypeError when \<open>d\<close> is
      \<open>undefined\<close>\<close>
  "toISOString d =
     (case d of
        TimeValue t \<Rightarrow> Inr (iso_string t)
      | Invalid_Date \<Rightarrow> Inl RangeError
      | Undefined_Date \<Rightarrow> Inl TypeError)"

definition read_field :: "nat \<Rightarrow> string \<Rightarrow> (nat \<times> string) option" where
  \<comment> \<open>exactly \<open>w\<close> decimal digits\<close>
  "read_field w s =
     (if w \<le> length s \<and> list_all is_digit (take w s)
      then Some (fold (\<lambda>c n. 10 * n + digit_val c) (take w s) 0, drop w s) else None)"

definition read_char :: "char \<Rightarrow> string \<Rightarrow> string option" where
  "read_char c s = (case s of [] \<Rightarrow> None | x # xs \<Rightarrow> if x = c then Some xs else None)"

definition read_year :: "string \<Rightarrow> (int \<times> string) option" where
  \<comment> \<open>\<open>YYYY\<close>, \<open>+YYYYYY\<close> or \<open>-YYYYYY\<close>; the year \<open>-000000\<close> is not allowed\<close>
  "read_year s =
     (case s of [] \<Rightarrow> None
      | c # cs \<Rightarrow>
          if c = CHR ''+'' then
            (case read_field 6 cs of None \<Rightarrow> None | Some (n, r) \<Rightarrow> Some (int n, r))
          else if c = CHR ''-'' then
            (case read_field 6 cs of None \<Rightarrow> None
             | Some (n, r) \<Rightarrow> if n = 0 then None else Some (- int n, r))
          else
            (case read_field 4 s of None \<Rightarrow> None | Some (n, r) \<Rightarrow> Some (int n, r)))"

definition parse_iso :: "string \<Rightarrow> int option" where
  \<comment> \<open>the time value of a complete UTC string \<open>YYYY-MM-DDTHH:mm:ss.sssZ\<close> with every field
      in its range\<close>
  "parse_iso s =
     do {
       (y, s1) \<leftarrow> read_year s;
       s2 \<leftarrow> read_char CHR ''-'' s1;
       (mo, s3) \<leftarrow> read_field 2 s2;
       s4 \<leftarrow> read_char CHR ''-'' s3;
       (dt, s5) \<leftarrow> read_field 2 s4;
       s6 \<leftarrow> read_char CHR ''T'' s5;
       (h, s7) \<leftarrow> read_field 2 s6;
       s8 \<leftarrow> read_char CHR '':'' s7;
       (mi, s9) \<leftarrow> read_field 2 s8;
       s10 \<leftarrow> read_char CHR '':'' s9;
       (se, s11) \<leftarrow> read_field 2 s10;
       s12 \<leftarrow> read_char CHR ''.'' s11;
       (ms, s13) \<leftarrow> read_field 3 s12;
       s14 \<leftarrow> read_char CHR ''Z'' s13;
       if s14 = [] \<and> 1 \<le> mo \<and> mo \<le> 12 \<and> 1 \<le> dt
          \<and> int dt \<le> month_start (InLeapYear y) mo - month_start (InLeapYear y) (mo - 1)
          \<and> h \<le> 23 \<and> mi \<le> 59 \<and> se \<le> 59
       then
         (let t = MakeDate (MakeDay y (mo - 1) (int dt))
                    (MakeTime (int h) (int mi) (int se) (int ms))
          in if \<bar>t\<bar> \<le> maxTimeValue then Some t else None)
       else None
     }"

text \<open>
  \<open>new Date(s)\<close>. ECMA-262 fixes the result for the strings of the Date Time String
  Format; the model fixes it for the complete UTC form that \<open>toISOString\<close> writes. What
  an engine makes of any other string (shorter forms, time zone offsets, fields out of
  range, formats of its own) is the parameter \<open>other\<close>.
\<close>

definition new_Date :: "(string \<Rightarrow> date) \<Rightarrow> string \<Rightarrow> date" where
  "new_Date other s = (case parse_iso s of Some t \<Rightarrow> TimeValue t | None \<Rightarrow> other s)"

section \<open>Documents and search results (ragService.ts)\<close>

datatype source_t = Website | Upload | Manual

text \<open>
  \<open>source\<close> is \<open>None\<close> when the property holds \<open>undefined\<close>, which the same spread of
  ragService.ts allows. \<open>url\<close> and \<open>fileType\<close> are optional: \<open>None\<close> is a property that is
  absent or \<open>undefined\<close>. An embedding is an array of finite numbers.
\<close>

record metadata =
  source :: "source_t option"
  createdAt :: date
  url :: "string option"
  fileType :: "string option"

record document =
  id' :: string
  title :: string
  content :: string
  embedding :: "real list option"
  metadata :: metadata

text \<open>
  The similarity of the lexical scorer is the quotient of two natural numbers. It is
  modelled by the exact rational. Within one search all quotients have the same
  denominator (the number of query tokens), so the double that JavaScript computes
  orders them, and compares them with the double 0.1, as the rationals do.
\<close>

record search_result =
  document :: document
  similarity :: rat
  relevantChunk :: string

section \<open>SimpleEmbeddingService\<close>

definition is_punctuation :: "char \<Rightarrow> bool" where
  \<comment> \<open>the class \<open>[^\w\s]\<close>\<close>
  "is_punctuation c = (\<not> is_word_char c \<and> \<not> is_space_char c)"

definition tokenize :: "string \<Rightarrow> string list" where
  "tokenize text =
     filter (\<lambda>word. length word > 2)
       (split_re is_space_char
          (map (\<lambda>c. if is_punctuation c then CHR '' '' else c) text))"

definition calculateSimilarity :: "string \<Rightarrow> document \<Rightarrow> rat" where
  "calculateSimilarity query doc =
     (let queryWords = tokenize (toLowerCase query);
          docWords = tokenize (toLowerCase (content doc));
          matches = fold (\<lambda>word matches. if word \<in> set docWords then matches + 1 else matches)
                      queryWords (0::nat)
      in if length queryWords > 0 then of_nat matches / of_nat (length queryWords) else 0)"

definition sentence_score :: "string list \<Rightarrow> string \<Rightarrow> nat" where
  \<comment> \<open>the body of the loop over the sentences: the score of one sentence\<close>
  "sentence_score queryWords sentence =
     (let sentenceWords = tokenize (toLowerCase sentence)
      in fold (\<lambda>word score.
                 if list_ex (\<lambda>sw. str_includes sw word \<or> str_includes word sw) sentenceWords
                 then score + 1 else score)
           queryWords 0)"

definition is_terminator :: "char \<Rightarrow> bool" where
  \<comment> \<open>the class \<open>[.!?]\<close>\<close>
  "is_terminator c = (c = CHR ''.'' \<or> c = CHR ''!'' \<or> c = CHR ''?'')"

definition sentences_of :: "string \<Rightarrow> string list" where
  \<comment> \<open>\<open>content.split(/[.!?]+/).filter(s => s.trim().length > 0)\<close>\<close>
  "sentences_of content' = filter (\<lambda>s. length (trim s) > 0) (split_re is_terminator content')"

definition best_step :: "string list \<Rightarrow> string \<Rightarrow> string \<times> nat \<Rightarrow> string \<times> nat" where
  \<comment> \<open>one round of the loop: \<open>(bestSentence, bestScore)\<close> after looking at \<open>sentence\<close>\<close>
  "best_step queryWords sentence best =
     (let score = sentence_score queryWords sentence
      in if score > snd best then (trim sentence, score) else best)"

definition searchRelevantChunk :: "string \<Rightarrow> string \<Rightarrow> string" where
  "searchRelevantChunk query content' =
     (let sentences = sentences_of content';
          queryWords = tokenize (toLowerCase query);
          bestSentence = fst (fold (best_step queryWords) sentences ([], 0))
      in if bestSentence \<noteq> [] then bestSentence else substring0 content' 200 @ ''...'')"

section \<open>KnowledgeBaseService (ragService.ts)\<close>

text \<open>
  \<open>localStorage\<close> maps a key to a string. The strings that the services write are JSON
  texts of an array of documents whose \<open>createdAt\<close> is a string; \<open>JSON.stringify\<close> followed
  by \<open>JSON.parse\<close> gives such an array back, so an item of the model is the array itself.
  The empty string is \<open>Empty_text\<close> (the guard \<open>if (data)\<close> skips it), and any other text
  under the key is \<open>Unparseable\<close>: the \<open>try\<close> block of the load throws on it.
  \<open>localStorage.setItem\<close> is taken to succeed (no quota is modelled).
\<close>

record stored_metadata =
  s_source :: "source_t option"
  s_createdAt :: string
  s_url :: "string option"
  s_fileType :: "string option"

record stored_document =
  s_id :: string
  s_title :: string
  s_content :: string
  s_embedding :: "real list option"
  s_metadata :: stored_metadata

datatype item = Json_documents "stored_document list" | Empty_text | Unparseable

record kb_state =
  documents :: "document list"
  localStorage :: "string \<rightharpoonup> item"

text \<open>
  A property of an object of a \<open>Partial\<close> type is absent, present with the value
  \<open>undefined\<close>, or present with a value. An object spread copies every present property,
  also one that holds \<open>undefined\<close>.
\<close>

datatype 'a property = Absent | Present_undefined | Present 'a

record partial_metadata =
  p_source :: "source_t property"
  p_createdAt :: "date property"
  p_url :: "string property"
  p_fileType :: "string property"

definition prop_value :: "'a property \<Rightarrow> 'a option" where
  \<comment> \<open>what reading the property gives: \<open>None\<close> is \<open>undefined\<close>\<close>
  "prop_value p = (case p of Present x \<Rightarrow> Some x | _ \<Rightarrow> None)"

definition serialize_document :: "document \<Rightarrow> error + stored_document" where
  \<comment> \<open>the function mapped over the documents when saving; \<open>toISOString\<close> may throw\<close>
  "serialize_document doc =
     (case toISOString (createdAt (metadata doc)) of
        Inl e \<Rightarrow> Inl e
      | Inr isoText \<Rightarrow>
          Inr \<lparr>s_id = id' doc, s_title = title doc, s_content = content doc,
               s_embedding = embedding doc,
               s_metadata = \<lparr>s_source = source (metadata doc), s_createdAt = isoText,
                              s_url = url (metadata doc), s_fileType = fileType (metadata doc)\<rparr>\<rparr>)"

fun map_throwing :: "('a \<Rightarrow> error + 'b) \<Rightarrow> 'a list \<Rightarrow> error + 'b list" where
  \<comment> \<open>\<open>Array.prototype.map\<close> with a callback that may throw: the first exception ends it\<close>
  "map_throwing f [] = Inr []"
| "map_throwing f (x # xs) =
     (case f x of
        Inl e \<Rightarrow> Inl e
      | Inr y \<Rightarrow> (case map_throwing f xs of Inl e \<Rightarrow> Inl e | Inr ys \<Rightarrow> Inr (y # ys)))"

definition save_under :: "string \<Rightarrow> kb_state \<Rightarrow> kb_state" where
  \<comment> \<open>\<open>try { localStorage.setItem(key, JSON.stringify(documents.map(...))) } catch { warn }\<close>\<close>
  "save_under key s =
     (case map_throwing serialize_document (documents s) of
        Inl e \<Rightarrow> s
      | Inr data \<Rightarrow> s\<lparr>localStorage := (localStorage s)(key \<mapsto> Json_documents data)\<rparr>)"

definition deserialize_document :: "(string \<Rightarrow> date) \<Rightarrow> stored_document \<Rightarrow> document" where
  "deserialize_document other sd =
     \<lparr>id' = s_id sd, title = s_title sd, content = s_content sd, embedding = s_embedding sd,
      metadata = \<lparr>source = s_source (s_metadata sd),
                   createdAt = new_Date other (s_createdAt (s_metadata sd)),
                   url = s_url (s_metadata sd), fileType = s_fileType (s_metadata sd)\<rparr>\<rparr>"

definition load_under :: "(string \<Rightarrow> date) \<Rightarrow> string \<Rightarrow> kb_state \<Rightarrow> kb_state" where
  \<comment> \<open>nothing stored, or the empty string: the documents stay; a text that does not
      parse: the catch block empties them\<close>
  "load_under other key s =
     (case localStorage s key of
        None \<Rightarrow> s
      | Some Empty_text \<Rightarrow> s
      | Some Unparseable \<Rightarrow> s\<lparr>documents := []\<rparr>
      | Some (Json_documents parsed) \<Rightarrow> s\<lparr>documents := map (deserialize_document other) parsed\<rparr>)"

definition saveToStorage :: "kb_state \<Rightarrow> kb_state" where
  "saveToStorage s = save_under ''mistral_knowledge_base'' s"

definition loadFromStorage :: "(string \<Rightarrow> date) \<Rightarrow> kb_state \<Rightarrow> kb_state" where
  "loadFromStorage other s = load_under other ''mistral_knowledge_base'' s"

text \<open>
  \<open>addDocument\<close> of ragService.ts. The results of \<open>generateId()\<close> (the clock and
  \<open>Math.random\<close>) and of \<open>new Date()\<close> (its time value) are the arguments \<open>newId\<close> and
  \<open>now\<close>. The promise it returns is never rejected: there is no check of the arguments.
\<close>

definition addDocument ::
  "string \<Rightarrow> int \<Rightarrow> string \<Rightarrow> string \<Rightarrow> partial_metadata \<Rightarrow> kb_state \<Rightarrow> string \<times> kb_state" where
  "addDocument newId now title' content' md s =
     (let doc = \<lparr>id' = newId, title = title', content = trim content', embedding = None,
                 metadata =
                   \<lparr>source = (case p_source md of
                                 Absent \<Rightarrow> Some Manual
                               | Present_undefined \<Rightarrow> None
                               | Present x \<Rightarrow> Some x),
                    createdAt = (case p_createdAt md of
                                   Absent \<Rightarrow> TimeValue now
                                 | Present_undefined \<Rightarrow> Undefined_Date
                                 | Present d \<Rightarrow> d),
                    url = prop_value (p_url md), fileType = prop_value (p_fileType md)\<rparr>\<rparr>
      in (newId, saveToStorage (s\<lparr>documents := documents s @ [doc]\<rparr>)))"

text \<open>
  \<open>Array.prototype.sort\<close> with a comparator is a stable sort: \<open>a\<close> comes before \<open>b\<close> when
  \<open>cmp(a, b) < 0\<close>, and elements that compare equal keep their order. It is modelled by
  insertion from the right, which is stable.
\<close>

fun js_insert :: "('a \<Rightarrow> 'a \<Rightarrow> rat) \<Rightarrow> 'a \<Rightarrow> 'a list \<Rightarrow> 'a list" where
  "js_insert cmp x [] = [x]"
| "js_insert cmp x (y # ys) = (if cmp x y \<le> 0 then x # y # ys else y # js_insert cmp x ys)"

definition js_sort :: "('a \<Rightarrow> 'a \<Rightarrow> rat) \<Rightarrow> 'a list \<Rightarrow> 'a list" where
  "js_sort cmp xs = foldr (js_insert cmp) xs []"

definition search_step :: "string \<Rightarrow> document \<Rightarrow> search_result list \<Rightarrow> search_result list" where
  \<comment> \<open>the body of \<open>this.documents.forEach\<close> in \<open>search\<close>\<close>
  "search_step query doc results =
     (let sim = calculateSimilarity query doc
      in if sim > 1 / 10
         then results @ [\<lparr>document = doc, similarity = sim,
                           relevantChunk = searchRelevantChunk query (content doc)\<rparr>]
         else results)"

definition search :: "kb_state \<Rightarrow> string \<Rightarrow> nat \<Rightarrow> search_result list" where
  "search s query topK =
     (let results = fold (search_step query) (documents s) []
      in take topK (js_sort (\<lambda>a b. similarity b - similarity a) results))"

fun findIndex :: "('a \<Rightarrow> bool) \<Rightarrow> 'a list \<Rightarrow> nat option" where
  \<comment> \<open>the first index whose element satisfies the predicate; \<open>None\<close> is the \<open>-1\<close> of JavaScript\<close>
  "findIndex P [] = None"
| "findIndex P (x # xs) = (if P x then Some 0 else map_option Suc (findIndex P xs))"




section \<open>KnowledgeBaseService (knowledgeBase.ts)\<close>

record kb_partial_metadata =
  k_source :: "source_t option"
  k_url :: "string option"
  k_fileType :: "string option"

record partial_document =
  pd_title :: "string option"
  pd_content :: "string option"
  pd_metadata :: "kb_partial_metadata option"

definition truthy :: "string option \<Rightarrow> bool" where
  \<comment> \<open>\<open>x?.trim()\<close> as a condition: defined, and not empty after trimming\<close>
  "truthy x = (case x of None \<Rightarrow> False | Some t \<Rightarrow> trim t \<noteq> [])"

definition validateDocument :: "partial_document \<Rightarrow> bool" where
  "validateDocument d =
     (truthy (pd_title d) \<and> truthy (pd_content d)
      \<and> (case pd_metadata d of None \<Rightarrow> False | Some md \<Rightarrow> k_source md \<noteq> None))"

definition saveToLocalStorage :: "kb_state \<Rightarrow> kb_state" where
  "saveToLocalStorage s = save_under ''knowledgeBase'' s"

definition loadFromLocalStorage :: "(string \<Rightarrow> date) \<Rightarrow> kb_state \<Rightarrow> kb_state" where
  "loadFromLocalStorage other s = load_under other ''knowledgeBase'' s"

text \<open>
  \<open>addDocument\<close> of knowledgeBase.ts: it throws \<open>Invalid document data\<close> before anything
  is changed. The type of its metadata has no \<open>createdAt\<close>, and requires a \<open>source\<close>; the
  check at run time is for a caller that passes none.
\<close>

definition kb_addDocument ::
  "string \<Rightarrow> int \<Rightarrow> string \<Rightarrow> string \<Rightarrow> kb_partial_metadata \<Rightarrow> kb_state
     \<Rightarrow> error + (string \<times> kb_state)" where
  "kb_addDocument newId now title' content' md s =
     (if \<not> validateDocument
              \<lparr>pd_title = Some title', pd_content = Some content', pd_metadata = Some md\<rparr>
      then Inl Invalid_document_data
      else
        (case k_source md of
           None \<Rightarrow> Inl Invalid_document_data
         | Some src \<Rightarrow>
             (let doc = \<lparr>id' = newId, title = title', content = content', embedding = Some [],
                         metadata = \<lparr>source = Some src, createdAt = TimeValue now,
                                      url = k_url md, fileType = k_fileType md\<rparr>\<rparr>
              in Inr (newId, saveToLocalStorage (s\<lparr>documents := documents s @ [doc]\<rparr>)))))"



text \<open>
  The updates of \<open>updateDocument\<close> give a new title, a new content, both or neither. The
  record is for objects whose properties, where present, hold strings: a property that is
  present with the value \<open>undefined\<close> would be copied by the spread and leave a document
  without a title or content, which \<^typ>\<open>document\<close> does not hold.
\<close>

record updates =
  u_title :: "string option"
  u_content :: "string option"

definition apply_updates :: "document \<Rightarrow> updates \<Rightarrow> document" where
  \<comment> \<open>\<open>{ ...doc, ...updates }\<close>\<close>
  "apply_updates doc u =
     doc\<lparr>title := (case u_title u of None \<Rightarrow> title doc | Some t \<Rightarrow> t),
         content := (case u_content u of None \<Rightarrow> content doc | Some c \<Rightarrow> c)\<rparr>"

definition updateDocument :: "string \<Rightarrow> updates \<Rightarrow> kb_state \<Rightarrow> bool \<times> kb_state" where
  "updateDocument i u s =
     (case findIndex (\<lambda>doc. id' doc = i) (documents s) of
        Some index \<Rightarrow>
          (True, saveToLocalStorage
                   (s\<lparr>documents := (documents s)[index := apply_updates (documents s ! index) u]\<rparr>))
      | None \<Rightarrow> (False, s))"

section \<open>EmbeddingService (embeddingService.ts)\<close>

text \<open>
  A JavaScript number is a double of IEEE 754: a finite number, one of the two zeros, one
  of the two infinities, or NaN. \<open>Num r\<close> is the finite number \<open>r\<close> and \<open>Num 0\<close> the positive
  zero. The type is wider than the doubles, as \<open>r\<close> is any real; what is proved of all
  its values holds of the doubles. The operations below give a \<open>Num r\<close> only as \<open>Num 0\<close>
  or as a result of \<open>round_double\<close>.
\<close>

datatype double = Num real | Neg_zero | Infinity | Neg_infinity | NaN

text \<open>
  Rounding to the nearest double, ties to even. The doubles around \<open>x\<close> are the multiples
  of \<open>ulp x\<close>: 53 significant bits, and the spacing \<open>2 powr - 1074\<close> of the subnormal
  numbers below \<open>2 powr - 1022\<close>. A result that rounds beyond the largest double becomes
  an infinity, one that rounds to nothing a zero with the sign of the exact result.
\<close>

definition exponent :: "real \<Rightarrow> int" where
  "exponent x = max \<lfloor>log 2 \<bar>x\<bar>\<rfloor> (- 1022)"

definition ulp :: "real \<Rightarrow> real" where
  "ulp x = 2 powr (of_int (exponent x) - 52)"

definition round_half_even :: "real \<Rightarrow> int" where
  "round_half_even y =
     (let f = \<lfloor>y\<rfloor>
      in if y - of_int f < 1 / 2 then f
         else if y - of_int f > 1 / 2 then f + 1
         else if even f then f else f + 1)"

definition nearest :: "real \<Rightarrow> real" where
  "nearest x = of_int (round_half_even (x / ulp x)) * ulp x"

definition max_double :: real where
  "max_double = (2 ^ 53 - 1) * 2 ^ 971"

definition round_double :: "real \<Rightarrow> double" where
  "round_double x =
     (let y = nearest x
      in if y > max_double then Infinity
         else if y < - max_double then Neg_infinity
         else if y = 0 then (if x < 0 then Neg_zero else Num 0)
         else Num y)"

text \<open>
  The operators \<open>*\<close>, \<open>+\<close> and \<open>/\<close> on numbers, and \<open>Math.sqrt\<close>, with the special cases
  of IEEE 754 written out. Each rounds the exact result once; \<open>Math.sqrt\<close> is the
  correctly rounded square root, as the engines compute it. \<open>is_zero\<close> is the test
  \<open>x === 0\<close>, which holds for both zeros and not for NaN.
\<close>

definition is_zero :: "double \<Rightarrow> bool" where
  "is_zero d = (d = Num 0 \<or> d = Neg_zero)"

definition is_inf :: "double \<Rightarrow> bool" where
  "is_inf d = (d = Infinity \<or> d = Neg_infinity)"

definition is_neg :: "double \<Rightarrow> bool" where
  "is_neg d = (case d of Num r \<Rightarrow> r < 0 | Neg_zero \<Rightarrow> True | Neg_infinity \<Rightarrow> True | _ \<Rightarrow> False)"

definition number_value :: "double \<Rightarrow> real" where
  "number_value d = (case d of Num r \<Rightarrow> r | _ \<Rightarrow> 0)"

definition signed_zero :: "bool \<Rightarrow> double" where
  "signed_zero neg = (if neg then Neg_zero else Num 0)"

definition signed_inf :: "bool \<Rightarrow> double" where
  "signed_inf neg = (if neg then Neg_infinity else Infinity)"

definition times_double :: "double \<Rightarrow> double \<Rightarrow> double" where
  "times_double a b =
     (if a = NaN \<or> b = NaN then NaN
      else if (is_inf a \<and> is_zero b) \<or> (is_zero a \<and> is_inf b) then NaN
      else if is_inf a \<or> is_inf b then signed_inf (is_neg a \<noteq> is_neg b)
      else if is_zero a \<or> is_zero b then signed_zero (is_neg a \<noteq> is_neg b)
      else round_double (number_value a * number_value b))"

definition plus_double :: "double \<Rightarrow> double \<Rightarrow> double" where
  "plus_double a b =
     (if a = NaN \<or> b = NaN then NaN
      else if is_inf a \<and> is_inf b then (if a = b then a else NaN)
      else if is_inf a then a
      else if is_inf b then b
      else if is_zero a \<and> is_zero b then signed_zero (a = Neg_zero \<and> b = Neg_zero)
      else if number_value a + number_value b = 0 then Num 0
      else round_double (number_value a + number_value b))"

definition divide_double :: "double \<Rightarrow> double \<Rightarrow> double" where
  "divide_double a b =
     (if a = NaN \<or> b = NaN then NaN
      else if (is_inf a \<and> is_inf b) \<or> (is_zero a \<and> is_zero b) then NaN
      else if is_inf a \<or> is_zero b then signed_inf (is_neg a \<noteq> is_neg b)
      else if is_inf b \<or> is_zero a then signed_zero (is_neg a \<noteq> is_neg b)
      else round_double (number_value a / number_value b))"

definition sqrt_double :: "double \<Rightarrow> double" where
  "sqrt_double a =
     (case a of
        NaN \<Rightarrow> NaN
      | Neg_zero \<Rightarrow> Neg_zero
      | Infinity \<Rightarrow> Infinity
      | Neg_infinity \<Rightarrow> NaN
      | Num r \<Rightarrow> if r < 0 then NaN else if r = 0 then Num 0 else round_double (sqrt r))"

text \<open>
  \<open>cosineSimilarity\<close>. The two \<open>reduce\<close> calls start from the number 0 and go through
  the array from the left; \<open>b[i]\<close> is the element of \<open>b\<close> at the index of \<open>a_i\<close>, which
  exists when the lengths are equal. The \<open>Error\<close> thrown for arrays of different lengths
  is \<open>Vector_length_error\<close>.
\<close>

definition dot_product :: "double list \<Rightarrow> double list \<Rightarrow> double" where
  "dot_product a b = fold (\<lambda>(a_i, b_i) sum. plus_double sum (times_double a_i b_i)) (zip a b) (Num 0)"

definition sum_squares :: "double list \<Rightarrow> double" where
  "sum_squares a = fold (\<lambda>a_i sum. plus_double sum (times_double a_i a_i)) a (Num 0)"

definition cosineSimilarity :: "double list \<Rightarrow> double list \<Rightarrow> error + double" where
  "cosineSimilarity a b =
     (if length a \<noteq> length b then Inl Vector_length_error
      else
        (let dotProduct = dot_product a b;
             magnitudeA = sqrt_double (sum_squares a);
             magnitudeB = sqrt_double (sum_squares b)
         in if is_zero magnitudeA \<or> is_zero magnitudeB then Inr (Num 0)
            else Inr (divide_double dotProduct (times_double magnitudeA magnitudeB))))"

section \<open>Notions used in the statements\<close>

definition result_of :: "string \<Rightarrow> document \<Rightarrow> search_result" where
  \<comment> \<open>the record that \<open>search\<close> pushes for a document\<close>
  "result_of query doc =
     \<lparr>document = doc, similarity = calculateSimilarity query doc,
      relevantChunk = searchRelevantChunk query (content doc)\<rparr>"

definition ranked :: "(nat \<Rightarrow> rat) \<Rightarrow> nat \<Rightarrow> nat \<Rightarrow> bool" where
  \<comment> \<open>index \<open>i\<close> ranks before index \<open>j\<close>: a higher score, or the same score and an earlier
      place in the store\<close>
  "ranked key i j = (key j < key i \<or> (key j = key i \<and> i < j))"

definition persisted_under :: "string \<Rightarrow> kb_state \<Rightarrow> kb_state \<Rightarrow> bool" where
  \<comment> \<open>\<open>s'\<close> is \<open>s\<close> after a save of the documents of \<open>s'\<close>: when they can be serialized,
      their serialized form is the item under \<open>key\<close>, and no other item has changed\<close>
  "persisted_under key s s' =
     ((case map_throwing serialize_document (documents s') of
         Inl e \<Rightarrow> localStorage s' key = localStorage s key
       | Inr data \<Rightarrow> localStorage s' key = Some (Json_documents data))
      \<and> (\<forall>k. k \<noteq> key \<longrightarrow> localStorage s' k = localStorage s k))"

definition valid_date :: "date \<Rightarrow> bool" where
  \<comment> \<open>a date with a time value, in the range of time values\<close>
  "valid_date d = (case d of TimeValue t \<Rightarrow> \<bar>t\<bar> \<le> maxTimeValue | _ \<Rightarrow> False)"

definition created :: "document \<Rightarrow> date" where
  \<comment> \<open>\<open>doc.metadata.createdAt\<close>\<close>
  "created doc = createdAt (metadata doc)"

definition stored_as :: "document \<Rightarrow> stored_document \<Rightarrow> bool" where
  \<comment> \<open>the record written for a document: every field as in the document, the date as
      its ISO-8601 string\<close>
  "stored_as doc sd =
     (s_id sd = id' doc \<and> s_title sd = title doc \<and> s_content sd = content doc
      \<and> s_embedding sd = embedding doc
      \<and> s_source (s_metadata sd) = source (metadata doc)
      \<and> s_url (s_metadata sd) = url (metadata doc)
      \<and> s_fileType (s_metadata sd) = fileType (metadata doc)
      \<and> (case created doc of
            TimeValue t \<Rightarrow> s_createdAt (s_metadata sd) = iso_string t
          | _ \<Rightarrow> False))"

definition reloaded :: "(string \<Rightarrow> date) \<Rightarrow> string \<Rightarrow> kb_state \<Rightarrow> document list" where
  \<comment> \<open>the documents of a new service (its list is empty) after it has loaded from the
      storage of \<open>s\<close>\<close>
  "reloaded other key s =
     documents (load_under other key \<lparr>documents = [], localStorage = localStorage s\<rparr>)"

definition saved_under :: "string \<Rightarrow> kb_state \<Rightarrow> kb_state \<Rightarrow> bool" where
  \<comment> \<open>the documents of \<open>s'\<close> have been written under \<open>key\<close>: the item holds their records
      in order, a new service loads exactly these documents, and no other item of \<open>s\<close> has
      changed\<close>
  "saved_under key s s' =
     ((\<exists>data. localStorage s' key = Some (Json_documents data)
              \<and> list_all2 stored_as (documents s') data)
      \<and> (\<forall>other. reloaded other key s' = documents s')
      \<and> (\<forall>k. k \<noteq> key \<longrightarrow> localStorage s' k = localStorage s k))"


definition update_contract :: "string \<Rightarrow> updates \<Rightarrow> kb_state \<Rightarrow> bool \<times> kb_state \<Rightarrow> bool" where
  "update_contract i u s r =
     (if \<exists>d\<in>set (documents s). id' d = i
      then fst r = True
           \<and> length (documents (snd r)) = length (documents s)
           \<and> (\<exists>index<length (documents s).
                 id' (documents s ! index) = i
                 \<and> (\<forall>j<index. id' (documents s ! j) \<noteq> i)
                 \<and> (\<forall>j<length (documents s). j \<noteq> index \<longrightarrow> documents (snd r) ! j = documents s ! j)
                 \<and> id' (documents (snd r) ! index) = id' (documents s ! index)
                 \<and> embedding (documents (snd r) ! index) = embedding (documents s ! index)
                 \<and> metadata (documents (snd r) ! index) = metadata (documents s ! index)
                 \<and> title (documents (snd r) ! index)
                     = (case u_title u of None \<Rightarrow> title (documents s ! index) | Some t \<Rightarrow> t)
                 \<and> content (documents (snd r) ! index)
                     = (case u_content u of None \<Rightarrow> content (documents s ! index) | Some c \<Rightarrow> c))
           \<and> persisted_under ''knowledgeBase'' s (snd r)
      else r = (False, s))"

definition moderate :: "double \<Rightarrow> bool" where
  \<comment> \<open>a zero, or a finite number whose square is far from overflow and underflow\<close>
  "moderate x = (is_zero x \<or> (\<exists>r. x = Num r \<and> 2 powr (- 499) \<le> \<bar>r\<bar> \<and> \<bar>r\<bar> \<le> 2 powr 489))"

definition kb_new_document ::
  "string \<Rightarrow> int \<Rightarrow> string \<Rightarrow> string \<Rightarrow> source_t \<Rightarrow> kb_partial_metadata \<Rightarrow> document" where
  \<comment> \<open>the document that knowledgeBase.ts stores: title and content as given, an empty
      embedding\<close>
  "kb_new_document newId now title' content' src md =
     \<lparr>id' = newId, title = title', content = content', embedding = Some [],
      metadata = \<lparr>source = Some src, createdAt = TimeValue now,
                   url = k_url md, fileType = k_fileType md\<rparr>\<rparr>"

text \<open>
  The words of a string for a class of separators: the maximal runs of characters that are
  not separators. This is what "splitting on whitespace" or "on sentence terminators"
  means once empty pieces are dropped.
\<close>

function words_of :: "(char \<Rightarrow> bool) \<Rightarrow> string \<Rightarrow> string list" where
  "words_of sep s =
     (case dropWhile sep s of
        [] \<Rightarrow> []
      | c # cs \<Rightarrow> takeWhile (\<lambda>x. \<not> sep x) (c # cs)
                  # words_of sep (dropWhile (\<lambda>x. \<not> sep x) (c # cs)))"
  by pat_completeness auto
termination
proof (relation "measure (\<lambda>(sep, s). length s)")
  show "wf (measure (\<lambda>(sep, s). length s))" by simp
next
  fix sep :: "char \<Rightarrow> bool" and s :: string and c cs
  assume eq: "dropWhile sep s = c # cs"
  then have "\<not> sep c"
    using hd_dropWhile [of sep s] by simp
  then have "length (dropWhile (\<lambda>x. \<not> sep x) (c # cs)) \<le> length cs"
    by (simp add: length_dropWhile_le)
  moreover have "length (c # cs) \<le> length s"
    using length_dropWhile_le [of sep s] by (simp only: eq)
  ultimately show "((sep, dropWhile (\<lambda>x. \<not> sep x) (c # cs)), (sep, s)) \<in> measure (\<lambda>(sep, s). length s)"
    by simp
qed


declare words_of.simps [simp del]

section \<open>Example data\<close>

definition doc_mistral :: document where
  "doc_mistral =
     \<lparr>id' = ''d1'', title = ''Mistral AI Information'',
      content = ''Mistral AI ist ein KI-Unternehmen. Die Modelle sind offen.'',
      embedding = None,
      metadata = \<lparr>source = Some Manual, createdAt = TimeValue 1700000000000, url = None, fileType = None\<rparr>\<rparr>"

definition doc_rag :: document where
  "doc_rag =
     \<lparr>id' = ''d2'', title = ''RAG (Retrieval-Augmented Generation)'',
      content = ''RAG ist eine Technik. Was sonst?'',
      embedding = None,
      metadata = \<lparr>source = Some Manual, createdAt = TimeValue 1700000000001, url = None, fileType = None\<rparr>\<rparr>"

definition doc_chatbot :: document where
  "doc_chatbot =
     \<lparr>id' = ''d3'', title = ''Chatbot Development'',
      content = ''Ein Chatbot ist ein Programm!'',
      embedding = None,
      metadata = \<lparr>source = Some Website, createdAt = TimeValue 1700000000002,
                   url = Some ''https://example.org/bots'', fileType = None\<rparr>\<rparr>"

definition example_store :: kb_state where
  "example_store = \<lparr>documents = [doc_mistral, doc_rag, doc_chatbot], localStorage = Map.empty\<rparr>"

definition no_metadata :: partial_metadata where
  \<comment> \<open>the object \<open>{}\<close>\<close>
  "no_metadata =
     \<lparr>p_source = Absent, p_createdAt = Absent, p_url = Absent, p_fileType = Absent\<rparr>"

definition upload_metadata :: kb_partial_metadata where
  "upload_metadata = \<lparr>k_source = Some Upload, k_url = None, k_fileType = Some ''text/plain''\<rparr>"

definition shoes_text :: string where
  "shoes_text = ''I like to run. Shoes are great! Nothing else?''"

definition bad_date_store :: kb_state where
  "bad_date_store =
     \<lparr>documents =
        [\<lparr>id' = ''d7'', title = ''Imported'', content = ''An imported note.'', embedding = None,
          metadata = \<lparr>source = Some Upload, createdAt = Invalid_Date, url = None, fileType = None\<rparr>\<rparr>],
      localStorage = Map.empty\<rparr>"



section \<open>The tokenizer\<close>

lemma words_of_Nil: "words_of sep [] = []"
  by (simp add: words_of.simps)

lemma words_of_sep: "sep c \<Longrightarrow> words_of sep (c # cs) = words_of sep cs"
  by (subst (1 2) words_of.simps) simp

lemma words_of_word:
  "\<not> sep c \<Longrightarrow>
   words_of sep (c # cs) = (c # takeWhile (\<lambda>x. \<not> sep x) cs) # words_of sep (dropWhile (\<lambda>x. \<not> sep x) cs)"
  by (subst words_of.simps) simp

lemma words_of_dropWhile: "words_of sep (dropWhile sep s) = words_of sep s"
  by (induction s) (simp_all add: words_of_sep)

lemma words_of_append_word:
  "\<not> sep c \<Longrightarrow> \<forall>x\<in>set cur. \<not> sep x \<Longrightarrow>
   words_of sep (cur @ c # cs) = (cur @ c # takeWhile (\<lambda>x. \<not> sep x) cs) # words_of sep (dropWhile (\<lambda>x. \<not> sep x) cs)"
  by (induction cur) (simp_all add: words_of_word)

lemma words_of_run:
  "cur \<noteq> [] \<Longrightarrow> \<forall>x\<in>set cur. \<not> sep x \<Longrightarrow> sep c \<Longrightarrow>
   words_of sep (cur @ c # cs) = cur # words_of sep cs"
proof (induction cur)
  case Nil
  then show ?case by simp
next
  case (Cons a cur)
  then have "takeWhile (\<lambda>x. \<not> sep x) (cur @ c # cs) = cur"
    by (simp add: takeWhile_append2 takeWhile_tail)
  moreover have "dropWhile (\<lambda>x. \<not> sep x) (cur @ c # cs) = c # cs"
    using Cons by (simp add: dropWhile_append2 dropWhile_append3)
  ultimately show ?case
    using Cons by (simp add: words_of_word words_of_sep)
qed

lemma words_of_all_word:
  "cur \<noteq> [] \<Longrightarrow> \<forall>x\<in>set cur. \<not> sep x \<Longrightarrow> words_of sep cur = [cur]"
proof (cases cur)
  case Nil
  then show "cur \<noteq> [] \<Longrightarrow> ?thesis" by simp
next
  case (Cons a list)
  assume "\<forall>x\<in>set cur. \<not> sep x"
  then have a: "\<not> sep a" and t: "takeWhile (\<lambda>x. \<not> sep x) list = list"
    and d: "dropWhile (\<lambda>x. \<not> sep x) list = []"
    using Cons by simp_all
  have "words_of sep (a # list) = (a # takeWhile (\<lambda>x. \<not> sep x) list)
          # words_of sep (dropWhile (\<lambda>x. \<not> sep x) list)"
    using a by (rule words_of_word)
  then show ?thesis
    by (simp only: Cons t d words_of_Nil)
qed

lemma split_runs_words:
  "\<forall>x\<in>set cur. \<not> sep x \<Longrightarrow>
   filter (\<lambda>w. w \<noteq> []) (split_runs sep cur s) = words_of sep (cur @ s)"
proof (induction sep cur s rule: split_runs.induct)
  case (1 sep cur)
  then show ?case
    by (cases "cur = []") (simp_all add: words_of_Nil words_of_all_word)
next
  case (2 sep cur c cs)
  show ?case
  proof (cases "sep c")
    case True
    then have "filter (\<lambda>w. w \<noteq> []) (split_runs sep [] (dropWhile sep cs)) = words_of sep cs"
      using "2.IH"(1) by (simp add: words_of_dropWhile)
    then show ?thesis
      using True "2.prems" by (cases "cur = []") (simp_all add: words_of_sep words_of_run)
  next
    case False
    then show ?thesis
      using "2.IH"(2) "2.prems" by simp
  qed
qed

lemma split_re_words: "filter (\<lambda>w. w \<noteq> []) (split_re sep s) = words_of sep s"
  using split_runs_words [of "[]" sep s] by (simp add: split_re_def)









section \<open>The lexical score\<close>

lemma fold_count_matches:
  "fold (\<lambda>w m. if P w then m + 1 else m) ws (n::nat) = n + length (filter P ws)"
  by (induction ws arbitrary: n) auto

text \<open>
  Claim C2. The lexical score of a query and a document is the number of query tokens,
  repeats counted, that occur among the tokens of the document's content, divided by the
  number of query tokens; it is 0 when the query has no token. The tokens are those of
  the lower-cased texts.
\<close>

theorem calculateSimilarity_overlap_ratio:
  "calculateSimilarity query doc =
     (let queryTokens = tokenize (toLowerCase query);
          docTokens = tokenize (toLowerCase (content doc))
      in if queryTokens = [] then 0
         else of_nat (length (filter (\<lambda>w. w \<in> set docTokens) queryTokens))
                / of_nat (length queryTokens))"
  by (simp add: calculateSimilarity_def Let_def fold_count_matches)

theorem calculateSimilarity_overlap_ratio_witness:
  "calculateSimilarity ''RAG, RAG oder Pizza?'' doc_rag = 1 / 2"
proof -
  have q: "tokenize (toLowerCase ''RAG, RAG oder Pizza?'') = [''rag'', ''rag'', ''oder'', ''pizza'']"
    by code_simp
  have d: "tokenize (toLowerCase (content doc_rag))
             = [''rag'', ''ist'', ''eine'', ''technik'', ''was'', ''sonst'']"
    by code_simp
  show ?thesis
    using calculateSimilarity_overlap_ratio [of "''RAG, RAG oder Pizza?''" doc_rag]
    by (simp add: q d)
qed

section \<open>Search\<close>

lemma calculateSimilarity_no_tokens:
  "tokenize (toLowerCase query) = [] \<Longrightarrow> calculateSimilarity query doc = 0"
  by (simp add: calculateSimilarity_def)

lemma fold_search_step_no_tokens:
  "tokenize (toLowerCase query) = [] \<Longrightarrow> fold (search_step query) docs acc = acc"
  by (induction docs arbitrary: acc) (simp_all add: search_step_def calculateSimilarity_no_tokens)

text \<open>
  Claim C10. A query that has no token (the empty string, words shorter than three
  characters, punctuation) finds nothing, whatever the store holds: every document scores
  0, which is not above 0.1.
\<close>

theorem search_no_tokens:
  "tokenize (toLowerCase query) = [] \<Longrightarrow> search s query topK = []"
  by (simp add: search_def fold_search_step_no_tokens js_sort_def)

theorem search_no_tokens_witness:
  "tokenize (toLowerCase '''') = [] \<and> tokenize (toLowerCase ''Is it an AI?! - ...'') = []
   \<and> search \<lparr>documents = [doc_rag], localStorage = Map.empty\<rparr> '''' 3 = []
   \<and> search \<lparr>documents = [doc_rag], localStorage = Map.empty\<rparr> ''Is it an AI?! - ...'' 3 = []"
proof -
  have e: "tokenize (toLowerCase '''') = []" by code_simp
  have p: "tokenize (toLowerCase ''Is it an AI?! - ...'') = []" by code_simp
  show ?thesis
    using e p search_no_tokens [OF e] search_no_tokens [OF p] by simp
qed
lemma fold_search_step:
  "fold (search_step query) docs acc =
     acc @ map (result_of query) (filter (\<lambda>d. calculateSimilarity query d > 1 / 10) docs)"
  by (induction docs arbitrary: acc) (simp_all add: search_step_def result_of_def Let_def)

lemma js_insert_map:
  "js_insert cmp (g x) (map g ys) = map g (js_insert (\<lambda>a b. cmp (g a) (g b)) x ys)"
  by (induction ys) simp_all

lemma js_sort_map:
  "js_sort cmp (map g xs) = map g (js_sort (\<lambda>a b. cmp (g a) (g b)) xs)"
  by (induction xs) (simp_all add: js_sort_def js_insert_map)

lemma set_js_insert: "set (js_insert cmp x ys) = insert x (set ys)"
  by (induction ys) auto

lemma set_js_sort: "set (js_sort cmp xs) = set xs"
  by (induction xs) (simp_all add: js_sort_def set_js_insert)

lemma length_js_insert: "length (js_insert cmp x ys) = Suc (length ys)"
  by (induction ys) auto

lemma length_js_sort: "length (js_sort cmp xs) = length xs"
  by (induction xs) (simp_all add: js_sort_def length_js_insert)

lemma js_insert_ranked:
  assumes "sorted_wrt (ranked key) ys" and "\<forall>y\<in>set ys. x < y"
  shows "sorted_wrt (ranked key) (js_insert (\<lambda>a b. key b - key a) x ys)"
  using assms
proof (induction ys)
  case Nil
  then show ?case by simp
next
  case (Cons y ys)
  show ?case
  proof (cases "key y \<le> key x")
    case True
    have "ranked key x z" if "z \<in> set (y # ys)" for z
    proof -
      have "key z \<le> key y"
        using that Cons.prems(1) by (auto simp: ranked_def)
      moreover have "x < z" using that Cons.prems(2) by auto
      ultimately show ?thesis using True by (auto simp: ranked_def)
    qed
    then show ?thesis using True Cons.prems(1) by simp
  next
    case False
    then have "ranked key y x" by (simp add: ranked_def)
    moreover have "sorted_wrt (ranked key) (js_insert (\<lambda>a b. key b - key a) x ys)"
      using Cons by simp
    ultimately show ?thesis
      using False Cons.prems(1) by (auto simp: set_js_insert)
  qed
qed

lemma js_sort_ranked:
  "sorted_wrt (<) xs \<Longrightarrow> sorted_wrt (ranked key) (js_sort (\<lambda>a b. key b - key a) xs)"
proof (induction xs)
  case Nil
  then show ?case by (simp add: js_sort_def)
next
  case (Cons x xs)
  then have "sorted_wrt (ranked key) (js_sort (\<lambda>a b. key b - key a) xs)" by simp
  moreover have "\<forall>y\<in>set (js_sort (\<lambda>a b. key b - key a) xs). x < y"
    using Cons.prems by (simp add: set_js_sort)
  ultimately have "sorted_wrt (ranked key) (js_insert (\<lambda>a b. key b - key a) x (js_sort (\<lambda>a b. key b - key a) xs))"
    by (rule js_insert_ranked)
  then show ?case by (simp add: js_sort_def)
qed

lemma search_by_index:
  fixes s query k
  defines "docs \<equiv> documents s"
  defines "key \<equiv> \<lambda>i. calculateSimilarity query (docs ! i)"
  defines "picked \<equiv> take k (js_sort (\<lambda>a b. key b - key a) (filter (\<lambda>i. key i > 1 / 10) [0..<length docs]))"
  shows "search s query k = map (\<lambda>i. result_of query (docs ! i)) picked"
    and "length picked \<le> k"
    and "\<forall>i\<in>set picked. i < length docs \<and> 1 / 10 < key i"
    and "sorted_wrt (ranked key) picked"
proof -
  let ?g = "\<lambda>i. result_of query (docs ! i)"
  let ?cand = "filter (\<lambda>i. key i > 1 / 10) [0..<length docs]"
  have "filter (\<lambda>d. calculateSimilarity query d > 1 / 10) docs
          = map (\<lambda>i. docs ! i) ?cand"
  proof -
    have "filter (\<lambda>d. calculateSimilarity query d > 1 / 10) (map (\<lambda>i. docs ! i) [0..<length docs])
            = map (\<lambda>i. docs ! i) ?cand"
      by (simp add: filter_map o_def key_def)
    then show ?thesis by (simp add: map_nth)
  qed
  then have "fold (search_step query) docs [] = map ?g ?cand"
    by (simp add: fold_search_step o_def)
  moreover have "(\<lambda>a b. similarity (?g b) - similarity (?g a)) = (\<lambda>a b. key b - key a)"
    by (simp add: result_of_def key_def)
  ultimately show "search s query k = map ?g picked"
    by (simp add: search_def docs_def [symmetric] js_sort_map picked_def take_map)
  show "length picked \<le> k" by (simp add: picked_def)
  have "set picked \<subseteq> set ?cand"
    unfolding picked_def using set_take_subset [of k] by (metis set_js_sort)
  then show "\<forall>i\<in>set picked. i < length docs \<and> 1 / 10 < key i" by auto
  have "sorted_wrt (<) ?cand"
    by (rule sorted_wrt_filter) (simp add: sorted_wrt_upt)
  then have "sorted_wrt (ranked key) (js_sort (\<lambda>a b. key b - key a) ?cand)"
    by (rule js_sort_ranked)
  then show "sorted_wrt (ranked key) picked"
    unfolding picked_def by (rule sorted_wrt_take)
qed

text \<open>
  Claim C1. For every store, query and \<open>k\<close>, \<open>search\<close> returns at most \<open>k\<close> results; every
  result has a similarity of at least 0.1 (in fact above it); the results are in
  non-increasing order of similarity; and they are the results of documents of the store,
  listed so that between two of the same similarity the document stored earlier comes
  first.
\<close>

theorem search_top_k_ranked:
  "length (search s query k) \<le> k
   \<and> (\<forall>r\<in>set (search s query k). 1 / 10 \<le> similarity r \<and> similarity r \<noteq> 1 / 10)
   \<and> sorted_wrt (\<lambda>a b. similarity b \<le> similarity a) (search s query k)
   \<and> (\<exists>picked.
         search s query k = map (\<lambda>i. result_of query (documents s ! i)) picked
         \<and> (\<forall>i\<in>set picked. i < length (documents s))
         \<and> sorted_wrt (ranked (\<lambda>i. calculateSimilarity query (documents s ! i))) picked)"
proof -
  define key where "key = (\<lambda>i. calculateSimilarity query (documents s ! i))"
  define picked where
    "picked = take k (js_sort (\<lambda>a b. key b - key a)
                        (filter (\<lambda>i. key i > 1 / 10) [0..<length (documents s)]))"
  let ?g = "\<lambda>i. result_of query (documents s ! i)"
  have eq: "search s query k = map ?g picked"
    unfolding picked_def key_def by (rule search_by_index(1))
  have f2: "length picked \<le> k"
    unfolding picked_def key_def by (rule search_by_index(2))
  have f3: "\<forall>i\<in>set picked. i < length (documents s) \<and> 1 / 10 < key i"
    unfolding picked_def key_def by (rule search_by_index(3))
  have f4: "sorted_wrt (ranked key) picked"
    unfolding picked_def key_def by (rule search_by_index(4))
  have sim: "similarity (?g i) = key i" for i
    by (simp add: result_of_def key_def)
  have len: "length (search s query k) \<le> k"
    using f2 by (simp add: eq)
  have thr: "\<forall>r\<in>set (search s query k). 1 / 10 \<le> similarity r \<and> similarity r \<noteq> 1 / 10"
    using f3 by (auto simp: eq sim)
  have "sorted_wrt (\<lambda>i j. key j \<le> key i) picked"
    using f4 by (rule sorted_wrt_mono_rel [rotated]) (auto simp: ranked_def)
  then have srt: "sorted_wrt (\<lambda>a b. similarity b \<le> similarity a) (search s query k)"
    by (simp add: eq sorted_wrt_map sim)
  have "\<exists>picked. search s query k = map ?g picked
         \<and> (\<forall>i\<in>set picked. i < length (documents s))
         \<and> sorted_wrt (ranked key) picked"
    using eq f3 f4 by blast
  with len thr srt show ?thesis
    unfolding key_def by blast
qed

theorem search_top_k_ranked_witness:
  "search example_store ''Was ist RAG?'' 2
     = [result_of ''Was ist RAG?'' doc_rag, result_of ''Was ist RAG?'' doc_mistral]
   \<and> similarity (result_of ''Was ist RAG?'' doc_rag) = 1
   \<and> similarity (result_of ''Was ist RAG?'' doc_mistral) = 1 / 3
   \<and> calculateSimilarity ''Was ist RAG?'' doc_chatbot = 1 / 3
   \<and> length (search example_store ''Was ist RAG?'' 2) \<le> 2
   \<and> list_all (\<lambda>r. 1 / 10 \<le> similarity r) (search example_store ''Was ist RAG?'' 2)
   \<and> sorted_wrt (\<lambda>a b. similarity b \<le> similarity a) (search example_store ''Was ist RAG?'' 2)"
proof -
  have q: "tokenize (toLowerCase ''Was ist RAG?'') = [''was'', ''ist'', ''rag'']"
    by code_simp
  have d1: "tokenize (toLowerCase (content doc_mistral))
              = [''mistral'', ''ist'', ''ein'', ''unternehmen'', ''die'', ''modelle'', ''sind'', ''offen'']"
    by code_simp
  have d2: "tokenize (toLowerCase (content doc_rag))
              = [''rag'', ''ist'', ''eine'', ''technik'', ''was'', ''sonst'']"
    by code_simp
  have d3: "tokenize (toLowerCase (content doc_chatbot))
              = [''ein'', ''chatbot'', ''ist'', ''ein'', ''programm'']"
    by code_simp
  have s1: "calculateSimilarity ''Was ist RAG?'' doc_mistral = 1 / 3"
    by (simp add: calculateSimilarity_def q d1)
  have s2: "calculateSimilarity ''Was ist RAG?'' doc_rag = 1"
    by (simp add: calculateSimilarity_def q d2)
  have s3: "calculateSimilarity ''Was ist RAG?'' doc_chatbot = 1 / 3"
    by (simp add: calculateSimilarity_def q d3)
  have res: "search example_store ''Was ist RAG?'' 2
     = [result_of ''Was ist RAG?'' doc_rag, result_of ''Was ist RAG?'' doc_mistral]"
    by (simp add: search_def example_store_def search_step_def s1 s2 s3 js_sort_def result_of_def
        Let_def eval_nat_numeral)
  show ?thesis
    using search_top_k_ranked [of example_store "''Was ist RAG?''" 2] res s3
    by (simp add: result_of_def s1 s2)
qed


section \<open>The snippet selector\<close>

lemma str_includes_sublist: "str_includes s w \<longleftrightarrow> sublist w s"
  by (induction s) (auto simp: sublist_Cons_right)

lemma sentence_score_count:
  "sentence_score queryWords sentence =
     length (filter (\<lambda>w. \<exists>sw\<in>set (tokenize (toLowerCase sentence)). sublist w sw \<or> sublist sw w)
               queryWords)"
  by (simp add: sentence_score_def fold_count_matches list_ex_iff str_includes_sublist)

lemma trim_Nil: "trim [] = []"
  by (simp add: trim_def)

lemma sentences_of_words:
  "sentences_of c = filter (\<lambda>s. trim s \<noteq> []) (words_of is_terminator c)"
proof -
  have "filter (\<lambda>s. trim s \<noteq> []) xs = filter (\<lambda>s. trim s \<noteq> []) (filter (\<lambda>w. w \<noteq> []) xs)"
    for xs :: "string list"
    by (induction xs) (auto simp: trim_Nil)
  from this [of "split_re is_terminator c"] show ?thesis
    unfolding sentences_of_def by (simp only: split_re_words length_greater_0_conv)
qed

lemma fold_best_step:
  fixes qs :: "string list" and b :: string and n :: nat
  defines "sc \<equiv> sentence_score qs"
  shows "(if \<forall>s\<in>set xs. sc s \<le> n then fold (best_step qs) xs (b, n) = (b, n)
          else \<exists>i<length xs. fold (best_step qs) xs (b, n) = (trim (xs ! i), sc (xs ! i))
                 \<and> n < sc (xs ! i)
                 \<and> (\<forall>j<length xs. sc (xs ! j) \<le> sc (xs ! i))
                 \<and> (\<forall>j<i. sc (xs ! j) < sc (xs ! i)))"
proof (induction xs rule: rev_induct)
  case Nil
  then show ?case by simp
next
  case (snoc x xs)
  let ?F = "fold (best_step qs) xs (b, n)"
  have step: "fold (best_step qs) (xs @ [x]) (b, n)
                = (if sc x > snd ?F then (trim x, sc x) else ?F)"
    by (simp add: best_step_def sc_def Let_def)
  show ?case
  proof (cases "\<forall>s\<in>set xs. sc s \<le> n")
    case True
    with snoc have F: "?F = (b, n)" by simp
    show ?thesis
    proof (cases "sc x \<le> n")
      case le: True
      with True F step show ?thesis by simp
    next
      case gt: False
      have "fold (best_step qs) (xs @ [x]) (b, n) = (trim x, sc x)"
        using gt F step by simp
      moreover have "\<forall>j<length xs. sc (xs ! j) < sc x"
        using True gt by (meson le_less_trans not_le nth_mem)
      ultimately have "fold (best_step qs) (xs @ [x]) (b, n)
            = (trim ((xs @ [x]) ! length xs), sc ((xs @ [x]) ! length xs))
          \<and> n < sc ((xs @ [x]) ! length xs)
          \<and> (\<forall>j<length (xs @ [x]). sc ((xs @ [x]) ! j) \<le> sc ((xs @ [x]) ! length xs))
          \<and> (\<forall>j<length xs. sc ((xs @ [x]) ! j) < sc ((xs @ [x]) ! length xs))"
        using gt by (auto simp: nth_append less_Suc_eq)
      then have "\<exists>i<length (xs @ [x]). fold (best_step qs) (xs @ [x]) (b, n)
            = (trim ((xs @ [x]) ! i), sc ((xs @ [x]) ! i))
          \<and> n < sc ((xs @ [x]) ! i)
          \<and> (\<forall>j<length (xs @ [x]). sc ((xs @ [x]) ! j) \<le> sc ((xs @ [x]) ! i))
          \<and> (\<forall>j<i. sc ((xs @ [x]) ! j) < sc ((xs @ [x]) ! i))"
        by (intro exI [of _ "length xs"]) simp
      moreover have "\<not> (\<forall>s\<in>set (xs @ [x]). sc s \<le> n)" using gt by simp
      ultimately show ?thesis by (simp only: if_False)
    qed
  next
    case False
    with snoc obtain i where i: "i < length xs"
      "?F = (trim (xs ! i), sc (xs ! i))" "n < sc (xs ! i)"
      "\<forall>j<length xs. sc (xs ! j) \<le> sc (xs ! i)" "\<forall>j<i. sc (xs ! j) < sc (xs ! i)"
      by auto
    have nall: "\<not> (\<forall>s\<in>set (xs @ [x]). sc s \<le> n)" using False by simp
    show ?thesis
    proof (cases "sc x > sc (xs ! i)")
      case gt: True
      have "fold (best_step qs) (xs @ [x]) (b, n) = (trim x, sc x)"
        using gt i(2) step by simp
      moreover have "\<forall>j<length xs. sc (xs ! j) < sc x"
        using i(4) gt by (meson le_less_trans)
      ultimately have "fold (best_step qs) (xs @ [x]) (b, n)
            = (trim ((xs @ [x]) ! length xs), sc ((xs @ [x]) ! length xs))
          \<and> n < sc ((xs @ [x]) ! length xs)
          \<and> (\<forall>j<length (xs @ [x]). sc ((xs @ [x]) ! j) \<le> sc ((xs @ [x]) ! length xs))
          \<and> (\<forall>j<length xs. sc ((xs @ [x]) ! j) < sc ((xs @ [x]) ! length xs))"
        using gt i(3) by (auto simp: nth_append less_Suc_eq)
      then have "\<exists>i<length (xs @ [x]). fold (best_step qs) (xs @ [x]) (b, n)
            = (trim ((xs @ [x]) ! i), sc ((xs @ [x]) ! i))
          \<and> n < sc ((xs @ [x]) ! i)
          \<and> (\<forall>j<length (xs @ [x]). sc ((xs @ [x]) ! j) \<le> sc ((xs @ [x]) ! i))
          \<and> (\<forall>j<i. sc ((xs @ [x]) ! j) < sc ((xs @ [x]) ! i))"
        by (intro exI [of _ "length xs"]) simp
      with nall show ?thesis by (simp only: if_False)
    next
      case le: False
      have "fold (best_step qs) (xs @ [x]) (b, n) = (trim (xs ! i), sc (xs ! i))"
        using le i(2) step by simp
      then have "fold (best_step qs) (xs @ [x]) (b, n)
            = (trim ((xs @ [x]) ! i), sc ((xs @ [x]) ! i))
          \<and> n < sc ((xs @ [x]) ! i)
          \<and> (\<forall>j<length (xs @ [x]). sc ((xs @ [x]) ! j) \<le> sc ((xs @ [x]) ! i))
          \<and> (\<forall>j<i. sc ((xs @ [x]) ! j) < sc ((xs @ [x]) ! i))"
        using le i by (auto simp: nth_append less_Suc_eq)
      then have "\<exists>i<length (xs @ [x]). fold (best_step qs) (xs @ [x]) (b, n)
            = (trim ((xs @ [x]) ! i), sc ((xs @ [x]) ! i))
          \<and> n < sc ((xs @ [x]) ! i)
          \<and> (\<forall>j<length (xs @ [x]). sc ((xs @ [x]) ! j) \<le> sc ((xs @ [x]) ! i))
          \<and> (\<forall>j<i. sc ((xs @ [x]) ! j) < sc ((xs @ [x]) ! i))"
        using i(1) by (intro exI [of _ i]) simp
      with nall show ?thesis by (simp only: if_False)
    qed
  qed
qed

text \<open>
  Claim C5. The sentences of a content are its pieces between runs of \<open>.\<close>, \<open>!\<close> and \<open>?\<close>
  that are not blank. The score of a sentence is the number of query tokens, repeats
  counted, that are a substring of a token of the sentence or have one as a substring.
  When every sentence scores 0 the result is the first 200 characters of the content
  followed by \<open>...\<close>; otherwise it is the (trimmed) sentence with the highest score, the
  first of them in the order of the text.
\<close>

theorem searchRelevantChunk_best_sentence:
  "sentences_of c = filter (\<lambda>s. trim s \<noteq> []) (words_of is_terminator c)
   \<and> (\<forall>s. sentence_score (tokenize (toLowerCase query)) s
            = length (filter (\<lambda>w. \<exists>sw\<in>set (tokenize (toLowerCase s)). sublist w sw \<or> sublist sw w)
                        (tokenize (toLowerCase query))))
   \<and> (if \<forall>s\<in>set (sentences_of c). sentence_score (tokenize (toLowerCase query)) s = 0
       then searchRelevantChunk query c = take 200 c @ ''...''
       else \<exists>i<length (sentences_of c).
              searchRelevantChunk query c = trim (sentences_of c ! i)
              \<and> 0 < sentence_score (tokenize (toLowerCase query)) (sentences_of c ! i)
              \<and> (\<forall>j<length (sentences_of c).
                    sentence_score (tokenize (toLowerCase query)) (sentences_of c ! j)
                      \<le> sentence_score (tokenize (toLowerCase query)) (sentences_of c ! i))
              \<and> (\<forall>j<i. sentence_score (tokenize (toLowerCase query)) (sentences_of c ! j)
                      < sentence_score (tokenize (toLowerCase query)) (sentences_of c ! i)))"
proof -
  define qs where "qs = tokenize (toLowerCase query)"
  define sents where "sents = sentences_of c"
  define sc where "sc = sentence_score qs"
  define F where "F = fold (best_step qs) sents ([], 0)"
  have res: "searchRelevantChunk query c = (if fst F \<noteq> [] then fst F else take 200 c @ ''...'')"
    by (simp add: searchRelevantChunk_def Let_def F_def qs_def sents_def substring0_def)
  have nonblank: "trim (sents ! i) \<noteq> []" if "i < length sents" for i
  proof -
    have "sents ! i \<in> set sents" using that by simp
    then show ?thesis by (simp add: sents_def sentences_of_def)
  qed
  note inv = fold_best_step [of sents qs 0 "[]", folded sc_def F_def]
  have main: "if \<forall>s\<in>set sents. sc s = 0
       then searchRelevantChunk query c = take 200 c @ ''...''
       else \<exists>i<length sents.
              searchRelevantChunk query c = trim (sents ! i)
              \<and> 0 < sc (sents ! i)
              \<and> (\<forall>j<length sents. sc (sents ! j) \<le> sc (sents ! i))
              \<and> (\<forall>j<i. sc (sents ! j) < sc (sents ! i))"
  proof (cases "\<forall>s\<in>set sents. sc s = 0")
    case True
    with inv have "F = ([], 0)" by simp
    with True res show ?thesis by simp
  next
    case False
    then have "\<not> (\<forall>s\<in>set sents. sc s \<le> 0)" by simp
    with inv obtain i where i: "i < length sents" "F = (trim (sents ! i), sc (sents ! i))"
      "0 < sc (sents ! i)" "\<forall>j<length sents. sc (sents ! j) \<le> sc (sents ! i)"
      "\<forall>j<i. sc (sents ! j) < sc (sents ! i)"
      by (auto simp only: if_False)
    have "searchRelevantChunk query c = trim (sents ! i)"
      using res i(2) nonblank [OF i(1)] by simp
    with i have "\<exists>i<length sents.
              searchRelevantChunk query c = trim (sents ! i)
              \<and> 0 < sc (sents ! i)
              \<and> (\<forall>j<length sents. sc (sents ! j) \<le> sc (sents ! i))
              \<and> (\<forall>j<i. sc (sents ! j) < sc (sents ! i))"
      by blast
    with False show ?thesis by (simp only: if_False)
  qed
  show ?thesis
    using main sentences_of_words [of c] sentence_score_count [of qs]
    unfolding sc_def sents_def qs_def by blast
qed

theorem searchRelevantChunk_best_sentence_witness:
  "sentences_of shoes_text = [''I like to run'', '' Shoes are great'', '' Nothing else'']
   \<and> sentence_score (tokenize (toLowerCase ''Running shoes'')) ''I like to run'' = 1
   \<and> sentence_score (tokenize (toLowerCase ''Running shoes'')) '' Shoes are great'' = 1
   \<and> sentence_score (tokenize (toLowerCase ''Running shoes'')) '' Nothing else'' = 0
   \<and> searchRelevantChunk ''Running shoes'' shoes_text = ''I like to run''
   \<and> searchRelevantChunk ''great shoes!'' shoes_text = ''Shoes are great''
   \<and> list_all (\<lambda>s. sentence_score (tokenize (toLowerCase ''Pizza'')) s = 0) (sentences_of shoes_text)
   \<and> searchRelevantChunk ''Pizza'' shoes_text = shoes_text @ ''...''"
proof -
  have s: "sentences_of shoes_text = [''I like to run'', '' Shoes are great'', '' Nothing else'']"
    by code_simp
  have r1: "sentence_score (tokenize (toLowerCase ''Running shoes'')) ''I like to run'' = 1"
    by code_simp
  have r2: "sentence_score (tokenize (toLowerCase ''Running shoes'')) '' Shoes are great'' = 1"
    by code_simp
  have r3: "sentence_score (tokenize (toLowerCase ''Running shoes'')) '' Nothing else'' = 0"
    by code_simp
  have a1: "searchRelevantChunk ''Running shoes'' shoes_text = ''I like to run''"
    by code_simp
  have a2: "searchRelevantChunk ''great shoes!'' shoes_text = ''Shoes are great''"
    by code_simp
  have z: "list_all (\<lambda>s. sentence_score (tokenize (toLowerCase ''Pizza'')) s = 0) (sentences_of shoes_text)"
    by code_simp
  have len: "take 200 shoes_text = shoes_text"
    by (simp add: shoes_text_def)
  from searchRelevantChunk_best_sentence [of shoes_text "''Pizza''"] z
  have "searchRelevantChunk ''Pizza'' shoes_text = take 200 shoes_text @ ''...''"
    unfolding list_all_iff by (elim conjE) (simp only: if_True)
  with s r1 r2 r3 a1 a2 z len show ?thesis by (simp only: simp_thms)
qed

section \<open>Cosine similarity\<close>

lemma round_half_even_error: "\<bar>of_int (round_half_even y) - y\<bar> \<le> 1 / 2"
  unfolding round_half_even_def Let_def by (auto simp: abs_le_iff)

lemma round_half_even_int: "round_half_even (of_int n) = n"
  by (simp add: round_half_even_def)

lemma ulp_pos: "0 < ulp x"
  by (simp add: ulp_def)

lemma powr_floor_log_le:
  assumes "x \<noteq> 0"
  shows "2 powr (of_int \<lfloor>log 2 \<bar>x\<bar>\<rfloor>) \<le> \<bar>x\<bar>"
proof -
  have "of_int \<lfloor>log 2 \<bar>x\<bar>\<rfloor> \<le> log 2 \<bar>x\<bar>" by simp
  then have "2 powr (of_int \<lfloor>log 2 \<bar>x\<bar>\<rfloor>) \<le> 2 powr (log 2 \<bar>x\<bar>)"
    by (simp only: powr_le_cancel_iff [of 2] one_less_numeral_iff semiring_norm)
  also have "\<dots> = \<bar>x\<bar>" using assms by simp
  finally show ?thesis .
qed

lemma nearest_error:
  assumes "2 powr (- 1022) \<le> \<bar>x\<bar>"
  shows "\<bar>nearest x - x\<bar> \<le> 2 powr (- 53) * \<bar>x\<bar>"
proof -
  have pos: "0 < \<bar>x\<bar>" using assms by (smt (verit) powr_gt_zero)
  then have nz: "x \<noteq> 0" by simp
  have "log 2 (2 powr (- 1022)) \<le> log 2 \<bar>x\<bar>"
    using assms pos by (subst log_le_cancel_iff) simp_all
  then have "- 1022 \<le> log 2 \<bar>x\<bar>" by simp
  then have "- 1022 \<le> \<lfloor>log 2 \<bar>x\<bar>\<rfloor>" by (simp add: le_floor_iff)
  then have e: "exponent x = \<lfloor>log 2 \<bar>x\<bar>\<rfloor>" by (simp add: exponent_def)
  define q where "q = ulp x"
  have q: "0 < q" by (simp add: q_def ulp_pos)
  have "\<bar>nearest x - x\<bar> = \<bar>of_int (round_half_even (x / q)) - x / q\<bar> * q"
  proof -
    have "nearest x - x = (of_int (round_half_even (x / q)) - x / q) * q"
      using q by (simp add: nearest_def q_def [symmetric] field_simps)
    then show ?thesis using q by (simp add: abs_mult)
  qed
  also have "\<dots> \<le> 1 / 2 * q"
    using round_half_even_error [of "x / q"] q by (intro mult_right_mono) simp_all
  also have "1 / 2 * q = 2 powr (- 53) * 2 powr (of_int \<lfloor>log 2 \<bar>x\<bar>\<rfloor>)"
  proof -
    have "q = 2 powr (of_int \<lfloor>log 2 \<bar>x\<bar>\<rfloor> + (- 52))"
      by (simp add: q_def ulp_def e)
    also have "\<dots> = 2 powr (of_int \<lfloor>log 2 \<bar>x\<bar>\<rfloor>) * 2 powr (- 52)"
      by (rule powr_add)
    finally have "q = 2 powr (of_int \<lfloor>log 2 \<bar>x\<bar>\<rfloor>) * 2 powr (- 52)" .
    moreover have "(2::real) powr (- 53) = 1 / 2 * 2 powr (- 52)"
      by (simp add: powr_minus powr_numeral)
    ultimately show ?thesis by simp
  qed
  also have "\<dots> \<le> 2 powr (- 53) * \<bar>x\<bar>"
    using powr_floor_log_le [OF nz] by (intro mult_left_mono) simp_all
  finally show ?thesis .
qed

lemma overflow_margin: "(1 + 1 / 2 ^ 53) * (2::real) ^ 1023 \<le> (2 ^ 53 - 1) * 2 ^ 971"
proof -
  have "(2::real) ^ 1023 = 2 ^ 52 * 2 ^ 971" by (simp only: power_add [symmetric]) simp
  moreover have "(1 + 1 / 2 ^ 53) * ((2::real) ^ 52 * 2 ^ 971) = ((1 + 1 / 2 ^ 53) * 2 ^ 52) * 2 ^ 971"
    by (simp only: mult.assoc)
  moreover have "(1 + 1 / 2 ^ 53) * (2::real) ^ 52 \<le> 2 ^ 53 - 1" by simp
  ultimately show ?thesis
    by (simp only: mult_right_mono zero_le_power zero_le_numeral)
qed

lemma two_powr_1023: "(2::real) powr 1023 = 2 ^ 1023"
  by simp

lemma unit_roundoff: "(2::real) powr (- 53) = 1 / 2 ^ 53"
  by (simp add: powr_minus_divide)

lemma round_double_normal:
  assumes lo: "2 powr (- 1022) \<le> \<bar>x\<bar>" and hi: "\<bar>x\<bar> \<le> 2 powr 1023"
  shows "\<exists>y. round_double x = Num y \<and> \<bar>y - x\<bar> \<le> 2 powr (- 53) * \<bar>x\<bar>"
proof -
  define y where "y = nearest x"
  define u :: real where "u = 2 powr (- 53)"
  have u: "u = 1 / 2 ^ 53" unfolding u_def by (rule unit_roundoff)
  have u0: "0 < u" "u < 1" by (simp_all add: u)
  have err: "\<bar>y - x\<bar> \<le> u * \<bar>x\<bar>"
    unfolding y_def u_def by (rule nearest_error [OF lo])
  have "(0::real) < 2 powr (- 1022)" by simp
  with lo have pos: "0 < \<bar>x\<bar>" by linarith
  have "\<bar>x\<bar> - \<bar>y\<bar> \<le> u * \<bar>x\<bar>" using err by linarith
  then have "(1 - u) * \<bar>x\<bar> \<le> \<bar>y\<bar>" by (simp add: algebra_simps)
  moreover have "0 < (1 - u) * \<bar>x\<bar>" using pos u0 by simp
  ultimately have nz: "y \<noteq> 0" by auto
  have "\<bar>y\<bar> - \<bar>x\<bar> \<le> u * \<bar>x\<bar>" using err by linarith
  then have "\<bar>y\<bar> \<le> (1 + u) * \<bar>x\<bar>" by (simp add: algebra_simps)
  also have "\<dots> \<le> (1 + u) * 2 powr 1023"
    using hi u0 by (intro mult_left_mono) simp_all
  also have "\<dots> \<le> max_double"
    unfolding u max_double_def two_powr_1023 by (rule overflow_margin)
  finally have "\<bar>y\<bar> \<le> max_double" .
  then have "round_double x = Num y"
    using nz by (auto simp: round_double_def y_def [symmetric] Let_def)
  with err show ?thesis unfolding u_def by blast
qed

lemma fold_zip_self:
  "fold (\<lambda>(a_i, b_i) sum. plus_double sum (times_double a_i b_i)) (zip v v) acc
   = fold (\<lambda>a_i sum. plus_double sum (times_double a_i a_i)) v acc"
  by (induction v arbitrary: acc) simp_all

lemma dot_product_self: "dot_product v v = sum_squares v"
  by (simp add: dot_product_def sum_squares_def fold_zip_self)

lemma relative_error_bounds:
  fixes x y u :: real
  assumes "\<bar>y - x\<bar> \<le> u * \<bar>x\<bar>" and "0 < x"
  shows "(1 - u) * x \<le> y" and "y \<le> (1 + u) * x"
  using assms by (simp_all add: algebra_simps abs_le_iff)

lemma self_upper_bound: "(1 + 1 / 2 ^ 53) * (1 / (1 - 1 / 2 ^ 53) ^ 3) \<le> 1 + 1 / (2::real) ^ 50"
  by (simp add: field_simps)

lemma self_lower_bound: "1 - 1 / (2::real) ^ 50 \<le> (1 - 1 / 2 ^ 53) * (1 / (1 + 1 / 2 ^ 53) ^ 3)"
  by (simp add: field_simps)

lemma two_powr_mono: "a \<le> b \<Longrightarrow> (2::real) powr a \<le> 2 powr b"
  by (rule powr_mono) simp_all

lemma sqrt_two_powr: "sqrt (2 powr (2 * a)) = 2 powr a"
proof (rule real_sqrt_unique)
  show "(2 powr a)\<^sup>2 = 2 powr (2 * a)"
    by (simp add: power2_eq_square powr_add [symmetric])
  show "0 \<le> (2::real) powr a" by simp
qed

lemma self_similarity:
  assumes s: "sum_squares v = Num \<sigma>"
    and lo: "2 powr (- 1000) \<le> \<sigma>" and hi: "\<sigma> \<le> 2 powr 1000"
  shows "\<exists>\<rho>. cosineSimilarity v v = Inr (Num \<rho>) \<and> \<bar>\<rho> - 1\<bar> \<le> 2 powr (- 50)"
proof -
  define u :: real where "u = 1 / 2 ^ 53"
  define a where "a = 1 - u"
  define b where "b = 1 + u"
  have uu: "2 powr (- 53) = u" unfolding u_def by (rule unit_roundoff)
  have a: "1 / 2 \<le> a" "0 < a" "a \<le> 1" and b: "1 \<le> b" "0 < b" "b \<le> 2"
    by (simp_all add: a_def b_def u_def)
  define t where "t = sqrt \<sigma>"
  have "(0::real) < 2 powr (- 1000)" by simp
  with lo have \<sigma>: "0 < \<sigma>" by linarith
  have t: "0 < t" using \<sigma> by (simp add: t_def)
  have tt: "t * t = \<sigma>" using \<sigma> by (simp add: t_def)
  have "(2::real) powr (- 1000) = 2 powr (2 * (- 500))" by simp
  then have "sqrt (2 powr (2 * (- 500))) \<le> sqrt \<sigma>"
    using lo by (simp only: real_sqrt_le_iff)
  then have tlo: "2 powr (- 500) \<le> t"
    by (simp only: sqrt_two_powr t_def)
  have "(2::real) powr 1000 = 2 powr (2 * 500)" by simp
  then have "sqrt \<sigma> \<le> sqrt (2 powr (2 * 500))"
    using hi by (simp only: real_sqrt_le_iff)
  then have thi: "t \<le> 2 powr 500"
    by (simp only: sqrt_two_powr t_def)
  \<comment> \<open>the magnitude\<close>
  have "(2::real) powr (- 1022) \<le> 2 powr (- 500)" by (rule two_powr_mono) simp
  then have "2 powr (- 1022) \<le> \<bar>t\<bar>"
    using tlo t by linarith
  moreover have "(2::real) powr 500 \<le> 2 powr 1023" by (rule two_powr_mono) simp
  then have "\<bar>t\<bar> \<le> 2 powr 1023"
    using thi t by linarith
  ultimately obtain \<mu> where \<mu>: "round_double t = Num \<mu>" and "\<bar>\<mu> - t\<bar> \<le> u * \<bar>t\<bar>"
    using round_double_normal [of t] unfolding uu by blast
  then have \<mu>b: "a * t \<le> \<mu>" "\<mu> \<le> b * t"
    using relative_error_bounds [of \<mu> t u] t by (simp_all add: a_def b_def)
  have at0: "0 < a * t" and bt0: "0 < b * t" using a(2) b(2) t by simp_all
  have \<mu>0: "0 < \<mu>"
    using \<mu>b(1) at0 by linarith
  have mag: "sqrt_double (Num \<sigma>) = Num \<mu>"
    using \<sigma> \<mu> by (simp add: sqrt_double_def t_def)
  \<comment> \<open>the product of the magnitudes\<close>
  have m2lo: "a * a * \<sigma> \<le> \<mu> * \<mu>"
  proof -
    have "(a * t) * (a * t) \<le> \<mu> * \<mu>"
      using \<mu>b(1) \<mu>0 at0 by (intro mult_mono) simp_all
    then show ?thesis using tt by (simp add: algebra_simps)
  qed
  have m2hi: "\<mu> * \<mu> \<le> b * b * \<sigma>"
  proof -
    have "\<mu> * \<mu> \<le> (b * t) * (b * t)"
      using \<mu>b(2) \<mu>0 bt0 by (intro mult_mono) simp_all
    then show ?thesis using tt by (simp add: algebra_simps)
  qed
  have m2pos: "0 < \<mu> * \<mu>" using \<mu>0 by simp
  have "(2::real) powr (- 1022) \<le> 1 / 4 * 2 powr (- 1000)"
  proof -
    have "(2::real) powr (- 1002) = 2 powr (- 2 + - 1000)" by simp
    also have "\<dots> = 2 powr (- 2) * 2 powr (- 1000)" by (rule powr_add)
    also have "(2::real) powr (- 2) = 1 / 4" by (simp add: powr_minus_divide)
    finally have "1 / 4 * 2 powr (- 1000) = (2::real) powr (- 1002)" by (simp only:)
    moreover have "(2::real) powr (- 1022) \<le> 2 powr (- 1002)" by (rule two_powr_mono) simp
    ultimately show ?thesis by (simp only:)
  qed
  also have "\<dots> \<le> a * a * \<sigma>"
  proof -
    have "1 / 2 * (1 / 2) \<le> a * a" using a by (intro mult_mono) simp_all
    then have "1 / 4 \<le> a * a" by simp
    then show ?thesis using lo \<sigma> by (intro mult_mono) simp_all
  qed
  finally have "2 powr (- 1022) \<le> \<bar>\<mu> * \<mu>\<bar>" using m2lo m2pos by linarith
  moreover have "\<bar>\<mu> * \<mu>\<bar> \<le> 2 powr 1023"
  proof -
    have "b * b \<le> 2 * 2" using b by (intro mult_mono) simp_all
    then have "b * b * \<sigma> \<le> 4 * 2 powr 1000"
      using hi \<sigma> b by (intro mult_mono) simp_all
    also have "(4::real) * 2 powr 1000 = 2 powr 1002"
    proof -
      have "(2::real) powr 1002 = 2 powr (2 + 1000)" by simp
      also have "\<dots> = 2 powr 2 * 2 powr 1000" by (rule powr_add)
      also have "(2::real) powr 2 = 4" by simp
      finally show ?thesis by (simp only:)
    qed
    also have "\<dots> \<le> 2 powr 1023" by (rule two_powr_mono) simp
    finally show ?thesis using m2hi m2pos by linarith
  qed
  ultimately obtain \<pi> where \<pi>: "round_double (\<mu> * \<mu>) = Num \<pi>"
      and "\<bar>\<pi> - \<mu> * \<mu>\<bar> \<le> u * \<bar>\<mu> * \<mu>\<bar>"
    using round_double_normal [of "\<mu> * \<mu>"] unfolding uu by blast
  then have "a * (\<mu> * \<mu>) \<le> \<pi>" "\<pi> \<le> b * (\<mu> * \<mu>)"
    using relative_error_bounds [of \<pi> "\<mu> * \<mu>" u] m2pos by (simp_all add: a_def b_def)
  then have \<pi>b: "a ^ 3 * \<sigma> \<le> \<pi>" "\<pi> \<le> b ^ 3 * \<sigma>"
  proof -
    assume 1: "a * (\<mu> * \<mu>) \<le> \<pi>" and 2: "\<pi> \<le> b * (\<mu> * \<mu>)"
    have "a * (a * a * \<sigma>) \<le> a * (\<mu> * \<mu>)"
      using m2lo a(2) by (intro mult_left_mono) simp_all
    with 1 show "a ^ 3 * \<sigma> \<le> \<pi>" by (simp add: power3_eq_cube algebra_simps)
    have "b * (\<mu> * \<mu>) \<le> b * (b * b * \<sigma>)"
      using m2hi b(2) by (intro mult_left_mono) simp_all
    with 2 show "\<pi> \<le> b ^ 3 * \<sigma>" by (simp add: power3_eq_cube algebra_simps)
  qed
  have a3: "0 < a ^ 3" and b3: "0 < b ^ 3" using a b by simp_all
  have \<pi>0: "0 < \<pi>"
    using \<pi>b(1) a3 \<sigma> by (smt (verit) mult_pos_pos)
  have prod: "times_double (Num \<mu>) (Num \<mu>) = Num \<pi>"
    using \<mu>0 \<pi> by (simp add: times_double_def is_inf_def is_zero_def number_value_def)
  \<comment> \<open>the quotient\<close>
  define q where "q = \<sigma> / \<pi>"
  have qhi: "q \<le> 1 / a ^ 3"
  proof -
    have "\<sigma> * a ^ 3 \<le> \<pi> * 1" using \<pi>b(1) by (simp add: mult.commute)
    then have "\<sigma> / \<pi> \<le> 1 / a ^ 3"
      using \<pi>0 a3 by (simp add: field_simps)
    then show ?thesis by (simp add: q_def)
  qed
  have qlo: "1 / b ^ 3 \<le> q"
  proof -
    have "1 * \<pi> \<le> \<sigma> * b ^ 3" using \<pi>b(2) by (simp add: mult.commute)
    then have "1 / b ^ 3 \<le> \<sigma> / \<pi>"
      using \<pi>0 b3 by (simp add: field_simps)
    then show ?thesis by (simp add: q_def)
  qed
  have q0: "0 < q" using \<sigma> \<pi>0 by (simp add: q_def)
  have b3le: "b ^ 3 \<le> 2" by (simp add: b_def u_def power_divide)
  have a3ge: "1 / 2 \<le> a ^ 3" by (simp add: a_def u_def power_divide)
  have "1 / 2 \<le> 1 / b ^ 3" using b3le b3 by (simp add: field_simps)
  with qlo have "1 / 2 \<le> q" by linarith
  moreover have "(2::real) powr (- 1022) \<le> 2 powr (- 1)" by (rule two_powr_mono) simp
  moreover have "(2::real) powr (- 1) = 1 / 2" by (simp add: powr_minus_divide)
  ultimately have "2 powr (- 1022) \<le> \<bar>q\<bar>" using q0 by linarith
  moreover have "\<bar>q\<bar> \<le> 2 powr 1023"
  proof -
    have "1 / a ^ 3 \<le> 2" using a3ge a3 by (simp add: field_simps)
    with qhi have "q \<le> 2" by linarith
    moreover have "(2::real) powr 1 \<le> 2 powr 1023" by (rule two_powr_mono) simp
    moreover have "(2::real) powr 1 = 2" by simp
    ultimately show ?thesis using q0 by linarith
  qed
  ultimately obtain \<rho> where \<rho>: "round_double q = Num \<rho>" and "\<bar>\<rho> - q\<bar> \<le> u * \<bar>q\<bar>"
    using round_double_normal [of q] unfolding uu by blast
  then have \<rho>b: "a * q \<le> \<rho>" "\<rho> \<le> b * q"
    using relative_error_bounds [of \<rho> q u] q0 by (simp_all add: a_def b_def)
  have quot: "divide_double (Num \<sigma>) (Num \<pi>) = Num \<rho>"
    using \<sigma> \<pi>0 \<rho> by (simp add: divide_double_def is_inf_def is_zero_def number_value_def q_def)
  have res: "cosineSimilarity v v = Inr (Num \<rho>)"
    using \<mu>0 by (simp add: cosineSimilarity_def dot_product_self s mag is_zero_def prod quot)
  have "\<rho> \<le> b * (1 / a ^ 3)"
    using \<rho>b(2) qhi b(2) by (smt (verit) mult_left_mono)
  also have "\<dots> \<le> 1 + 1 / 2 ^ 50"
    unfolding a_def b_def u_def by (rule self_upper_bound)
  finally have up: "\<rho> \<le> 1 + 1 / 2 ^ 50" .
  have "1 - 1 / 2 ^ 50 \<le> a * (1 / b ^ 3)"
    unfolding a_def b_def u_def by (rule self_lower_bound)
  also have "\<dots> \<le> \<rho>"
    using \<rho>b(1) qlo a(2) by (smt (verit) mult_left_mono)
  finally have down: "1 - 1 / 2 ^ 50 \<le> \<rho>" .
  have "(2::real) powr (- 50) = 1 / 2 ^ 50" by (simp add: powr_minus_divide)
  with up down have "\<bar>\<rho> - 1\<bar> \<le> 2 powr (- 50)" by (simp add: abs_le_iff)
  with res show ?thesis by blast
qed

lemma times_double_zero: "is_zero z \<Longrightarrow> times_double z z = Num 0"
  by (auto simp: times_double_def is_zero_def is_inf_def signed_zero_def)

lemma fold_squares_zero:
  "list_all is_zero a
   \<Longrightarrow> fold (\<lambda>a_i sum. plus_double sum (times_double a_i a_i)) a (Num 0) = Num 0"
  by (induction a) (simp_all add: times_double_zero plus_double_def is_zero_def is_inf_def signed_zero_def)

lemma sum_squares_zero: "list_all is_zero a \<Longrightarrow> sum_squares a = Num 0"
  by (simp add: sum_squares_def fold_squares_zero)

lemma cosineSimilarity_zero:
  assumes "length a = length b" and "list_all is_zero a \<or> list_all is_zero b"
  shows "cosineSimilarity a b = Inr (Num 0)"
proof -
  have "is_zero (sqrt_double (sum_squares a)) \<or> is_zero (sqrt_double (sum_squares b))"
    using assms(2) by (auto simp: sum_squares_zero sqrt_double_def is_zero_def)
  then show ?thesis
    using assms(1) by (auto simp: cosineSimilarity_def Let_def)
qed

lemma nearest_exact:
  assumes m: "\<bar>m\<bar> < 2 ^ 53" and k: "- 1074 \<le> k"
  shows "nearest (of_int m * 2 powr (of_int k)) = of_int m * 2 powr (of_int k)"
proof (cases "m = 0")
  case True
  then show ?thesis by (simp add: nearest_def round_half_even_def)
next
  case False
  define x :: real where "x = of_int m * 2 powr (of_int k)"
  have x0: "x \<noteq> 0" using False by (simp add: x_def)
  have "\<bar>x\<bar> = of_int \<bar>m\<bar> * 2 powr (of_int k)"
    by (simp add: x_def abs_mult)
  also have "\<dots> < 2 ^ 53 * 2 powr (of_int k)"
  proof -
    have "(of_int \<bar>m\<bar> :: real) < of_int (2 ^ 53)" using m by (simp only: of_int_less_iff)
    then have "(of_int \<bar>m\<bar> :: real) < 2 ^ 53" by simp
    then show ?thesis by (simp only: mult_strict_right_mono powr_gt_zero)
  qed
  also have "\<dots> = 2 powr (of_int (53 + k))"
  proof -
    have "(2::real) ^ 53 = 2 powr (of_int 53)" by simp
    then show ?thesis by (simp only: powr_add [symmetric] of_int_add)
  qed
  finally have "\<bar>x\<bar> < 2 powr (of_int (53 + k))" .
  then have "log 2 \<bar>x\<bar> < of_int (53 + k)"
    using x0 by (subst log_less_iff) simp_all
  then have "\<lfloor>log 2 \<bar>x\<bar>\<rfloor> < 53 + k" by (simp only: floor_less_iff)
  then have e: "exponent x - 52 \<le> k"
    using k by (simp add: exponent_def)
  define j where "j = nat (k - (exponent x - 52))"
  have j: "k = (exponent x - 52) + int j" using e by (simp add: j_def)
  define q where "q = ulp x"
  have q0: "0 < q" by (simp add: q_def ulp_pos)
  have "2 powr (of_int k) = 2 powr (of_int (exponent x - 52) + real j)"
    by (subst j) simp
  also have "\<dots> = 2 powr (of_int (exponent x - 52)) * 2 powr (real j)"
    by (rule powr_add)
  also have "2 powr (of_int (exponent x - 52)) = q"
    by (simp add: q_def ulp_def)
  also have "(2::real) powr (real j) = 2 ^ j"
    by (simp add: powr_realpow)
  finally have p: "2 powr (of_int k) = q * 2 ^ j" .
  have xe: "x = of_int m * (q * 2 ^ j)"
    unfolding p [symmetric] by (rule x_def)
  have "x / q = of_int (m * 2 ^ j)"
    using q0 by (simp add: xe)
  then have "round_half_even (x / q) = m * 2 ^ j"
    by (simp only: round_half_even_int)
  then have "nearest x = of_int (m * 2 ^ j) * q"
    by (simp only: nearest_def q_def)
  also have "\<dots> = of_int m * (q * 2 ^ j)" by simp
  finally have "nearest x = x" by (simp only: xe [symmetric])
  then show ?thesis by (simp only: x_def)
qed

lemma nearest_int:
  assumes "\<bar>m\<bar> < 2 ^ 53"
  shows "nearest (of_int m) = of_int m"
  using nearest_exact [OF assms, of 0] by simp

lemma round_double_int:
  assumes "\<bar>m\<bar> < 2 ^ 53"
  shows "round_double (of_int m) = Num (of_int m)"
proof -
  have "\<bar>of_int m :: real\<bar> < 2 ^ 53"
  proof -
    have "(of_int \<bar>m\<bar> :: real) < of_int (2 ^ 53)" using assms by (simp only: of_int_less_iff)
    then show ?thesis by simp
  qed
  moreover have "(2::real) ^ 53 \<le> max_double" by (simp add: max_double_def)
  ultimately have "\<bar>of_int m :: real\<bar> \<le> max_double" by linarith
  then show ?thesis
    by (auto simp: round_double_def nearest_int [OF assms] Let_def)
qed

lemma round_double_overflow:
  assumes "1024 \<le> k"
  shows "round_double (2 powr (of_int k)) = Infinity"
proof -
  have n: "nearest (2 powr (of_int k)) = 2 powr (of_int k)"
    using nearest_exact [of 1 k] assms by simp
  have "max_double < 2 ^ 1024" by (simp add: max_double_def)
  also have "(2::real) ^ 1024 = 2 powr (of_int 1024)" by simp
  also have "\<dots> \<le> 2 powr (of_int k)"
    using assms by (intro two_powr_mono) simp
  finally show ?thesis
    by (simp add: round_double_def n)
qed

lemma round_half_even_small: "0 \<le> y \<Longrightarrow> y < 1 / 2 \<Longrightarrow> round_half_even y = 0"
proof -
  assume "0 \<le> y" "y < 1 / 2"
  then have "\<lfloor>y\<rfloor> = 0" by (simp add: floor_eq_iff)
  with \<open>y < 1 / 2\<close> show ?thesis by (simp add: round_half_even_def)
qed

lemma round_double_underflow:
  assumes "k \<le> - 1076"
  shows "round_double (2 powr (of_int k)) = Num 0"
proof -
  define x :: real where "x = 2 powr (of_int k)"
  have x: "0 < x" by (simp add: x_def)
  have "log 2 \<bar>x\<bar> = of_int k" by (simp add: x_def)
  then have "exponent x = - 1022" using assms by (simp add: exponent_def)
  then have u: "ulp x = 2 powr (- 1074)" by (simp add: ulp_def)
  have "x / ulp x = 2 powr (of_int k) / 2 powr (- 1074)"
    unfolding u by (simp only: x_def)
  also have "\<dots> = 2 powr (of_int k - (- 1074))"
    by (rule powr_diff [symmetric])
  also have "\<dots> \<le> 2 powr (- 2)"
    using assms by (intro two_powr_mono) simp
  also have "(2::real) powr (- 2) = 1 / 4" by (simp add: powr_minus_divide)
  finally have "x / ulp x \<le> 1 / 4" .
  then have "x / ulp x < 1 / 2" by linarith
  moreover have "0 \<le> x / ulp x" using x ulp_pos [of x] by simp
  ultimately have "round_half_even (x / ulp x) = 0"
    by (intro round_half_even_small)
  then have "nearest x = 0" by (simp add: nearest_def)
  moreover have "0 < max_double" by (simp add: max_double_def)
  ultimately show ?thesis using x by (simp add: round_double_def x_def [symmetric])
qed

lemma square_power_of_two:
  "times_double (Num (2 powr (of_int k))) (Num (2 powr (of_int k)))
   = round_double (2 powr (of_int (2 * k)))"
proof -
  have "(2::real) powr (of_int k) * 2 powr (of_int k) = 2 powr (of_int (2 * k))"
    by (simp add: powr_add [symmetric])
  then show ?thesis
    by (simp add: times_double_def is_inf_def is_zero_def number_value_def)
qed

lemma cosineSimilarity_overflow:
  assumes "512 \<le> k"
  shows "cosineSimilarity [Num (2 powr (of_int k))] [Num (2 powr (of_int k))] = Inr NaN"
proof -
  have sq: "times_double (Num (2 powr (of_int k))) (Num (2 powr (of_int k))) = Infinity"
    using assms by (simp only: square_power_of_two) (rule round_double_overflow, simp)
  have s: "sum_squares [Num (2 powr (of_int k))] = Infinity"
    by (simp add: sum_squares_def sq plus_double_def is_inf_def)
  show ?thesis
    by (simp add: cosineSimilarity_def dot_product_self s sqrt_double_def is_zero_def
        times_double_def divide_double_def is_inf_def signed_inf_def is_neg_def)
qed

lemma cosineSimilarity_underflow:
  assumes "k \<le> - 538"
  shows "cosineSimilarity [Num (2 powr (of_int k))] [Num (2 powr (of_int k))] = Inr (Num 0)"
proof -
  have sq: "times_double (Num (2 powr (of_int k))) (Num (2 powr (of_int k))) = Num 0"
    using assms by (simp only: square_power_of_two) (rule round_double_underflow, simp)
  have s: "sum_squares [Num (2 powr (of_int k))] = Num 0"
    by (simp add: sum_squares_def sq plus_double_def is_inf_def is_zero_def signed_zero_def)
  show ?thesis
    by (simp add: cosineSimilarity_def s sqrt_double_def is_zero_def)
qed

lemma round_double_1: "round_double 1 = Num 1"
  using round_double_int [of 1] by simp

lemma cosineSimilarity_orthogonal:
  "cosineSimilarity [Num 1, Num 0] [Num 0, Num 1] = Inr (Num 0)
   \<and> sqrt_double (sum_squares [Num 1, Num 0]) = Num 1
   \<and> sqrt_double (sum_squares [Num 0, Num 1]) = Num 1"
proof -
  have t: "times_double (Num 1) (Num 1) = Num 1" "times_double (Num 0) (Num 0) = Num 0"
    "times_double (Num 1) (Num 0) = Num 0" "times_double (Num 0) (Num 1) = Num 0"
    by (simp_all add: times_double_def is_inf_def is_zero_def number_value_def round_double_1
        signed_zero_def is_neg_def)
  have p: "plus_double (Num 0) (Num 1) = Num 1" "plus_double (Num 1) (Num 0) = Num 1"
    "plus_double (Num 0) (Num 0) = Num 0"
    by (simp_all add: plus_double_def is_inf_def is_zero_def number_value_def round_double_1
        signed_zero_def)
  have s: "sum_squares [Num 1, Num 0] = Num 1" "sum_squares [Num 0, Num 1] = Num 1"
    by (simp_all add: sum_squares_def t p)
  have d: "dot_product [Num 1, Num 0] [Num 0, Num 1] = Num 0"
    by (simp add: dot_product_def t p)
  have m: "sqrt_double (Num 1) = Num 1"
    by (simp add: sqrt_double_def round_double_1)
  have q: "divide_double (Num 0) (Num 1) = Num 0"
    by (simp add: divide_double_def is_inf_def is_zero_def signed_zero_def is_neg_def)
  show ?thesis
    by (simp add: cosineSimilarity_def s d m t q is_zero_def)
qed

lemma roundoff_decay:
  assumes "n \<le> 2 ^ 21"
  shows "1 / 2 \<le> (1 - 1 / 2 ^ 53 :: real) ^ n"
proof -
  have "real n \<le> 2 ^ 21" using assms by (metis of_nat_le_iff of_nat_numeral of_nat_power)
  have "1 + real n * (- (1 / 2 ^ 53)) \<le> (1 + (- (1 / 2 ^ 53)) :: real) ^ n"
    by (rule Bernoulli_inequality) simp
  moreover have "real n * (1 / 2 ^ 53) \<le> 2 ^ 21 * (1 / 2 ^ 53)"
    using \<open>real n \<le> 2 ^ 21\<close> by (intro mult_right_mono) simp_all
  moreover have "(2::real) ^ 21 * (1 / 2 ^ 53) \<le> 1 / 2" by simp
  ultimately show ?thesis by simp
qed

lemma roundoff_growth:
  assumes "n \<le> 2 ^ 21"
  shows "(1 + 1 / 2 ^ 53 :: real) ^ n \<le> 2"
proof -
  define a :: real where "a = 1 - 1 / 2 ^ 53"
  define b :: real where "b = 1 + 1 / 2 ^ 53"
  have a: "1 / 2 \<le> a ^ n" unfolding a_def by (rule roundoff_decay [OF assms])
  have "a * b \<le> 1" "0 \<le> a * b" by (simp_all add: a_def b_def)
  then have "(a * b) ^ n \<le> 1" by (simp add: power_le_one)
  then have ab: "a ^ n * b ^ n \<le> 1" by (simp add: power_mult_distrib)
  have b0: "0 \<le> b ^ n" by (simp add: b_def)
  have "1 / 2 * b ^ n \<le> a ^ n * b ^ n"
    using a b0 by (rule mult_right_mono)
  with ab have "b ^ n \<le> 2" by simp
  then show ?thesis by (simp only: b_def)
qed

lemma sum_squares_snoc:
  "sum_squares (xs @ [x]) = plus_double (sum_squares xs) (times_double x x)"
  by (simp add: sum_squares_def)

lemma lower_step:
  fixes a lo :: real
  assumes "0 < a" "a \<le> 1" "0 \<le> lo"
  shows "a ^ Suc (Suc k) * lo \<le> a * (a * lo)"
proof -
  have "a ^ Suc (Suc k) \<le> a ^ 2"
    using assms by (intro power_decreasing) simp_all
  then have "a ^ Suc (Suc k) * lo \<le> a ^ 2 * lo"
    using assms(3) by (rule mult_right_mono)
  then show ?thesis by (simp add: power2_eq_square mult.assoc)
qed

lemma upper_step:
  fixes b hi :: real
  assumes "1 \<le> b" "0 \<le> hi"
  shows "b * (hi * real k * b ^ Suc k + b * hi) \<le> hi * real (Suc k) * b ^ Suc (Suc k)"
proof -
  have "b ^ 2 \<le> b ^ Suc (Suc k)"
    using assms(1) by (intro power_increasing) simp_all
  then have "hi * b ^ 2 \<le> hi * b ^ Suc (Suc k)"
    using assms(2) by (rule mult_left_mono)
  moreover have "b * (hi * real k * b ^ Suc k + b * hi) = hi * real k * b ^ Suc (Suc k) + hi * b ^ 2"
    by (simp add: algebra_simps power2_eq_square)
  moreover have "hi * real (Suc k) * b ^ Suc (Suc k) = hi * real k * b ^ Suc (Suc k) + hi * b ^ Suc (Suc k)"
    by (simp add: algebra_simps)
  ultimately show ?thesis by linarith
qed

lemma square_moderate:
  assumes lo: "2 powr (- 499) \<le> \<bar>r\<bar>" and hi: "\<bar>r\<bar> \<le> 2 powr 489"
  shows "\<exists>p. times_double (Num r) (Num r) = Num p
             \<and> (1 - 1 / 2 ^ 53) * 2 powr (- 998) \<le> p \<and> p \<le> (1 + 1 / 2 ^ 53) * 2 powr 978"
proof -
  have "(0::real) < 2 powr (- 499)" by simp
  with lo have r0: "r \<noteq> 0" by auto
  have rr: "r * r = \<bar>r\<bar> * \<bar>r\<bar>" by simp
  have "(2::real) powr (- 499) * 2 powr (- 499) \<le> \<bar>r\<bar> * \<bar>r\<bar>"
    using lo by (intro mult_mono) simp_all
  moreover have "(2::real) powr (- 499) * 2 powr (- 499) = 2 powr (- 998)"
  proof -
    have "(2::real) powr (- 998) = 2 powr (- 499 + - 499)" by simp
    also have "\<dots> = 2 powr (- 499) * 2 powr (- 499)" by (rule powr_add)
    finally show ?thesis by (rule sym)
  qed
  ultimately have l: "2 powr (- 998) \<le> r * r" by (simp only: rr)
  have "\<bar>r\<bar> * \<bar>r\<bar> \<le> 2 powr 489 * 2 powr 489"
    using hi by (intro mult_mono) simp_all
  moreover have "(2::real) powr 489 * 2 powr 489 = 2 powr 978"
  proof -
    have "(2::real) powr 978 = 2 powr (489 + 489)" by simp
    also have "\<dots> = 2 powr 489 * 2 powr 489" by (rule powr_add)
    finally show ?thesis by (rule sym)
  qed
  ultimately have h: "r * r \<le> 2 powr 978" by (simp only: rr)
  have "0 \<le> r * r" by simp
  moreover have "r * r \<noteq> 0" using r0 by simp
  ultimately have pos: "0 < r * r" by linarith
  have "(2::real) powr (- 1022) \<le> 2 powr (- 998)" by (rule two_powr_mono) simp
  then have "2 powr (- 1022) \<le> \<bar>r * r\<bar>" using l pos by linarith
  moreover have "(2::real) powr 978 \<le> 2 powr 1023" by (rule two_powr_mono) simp
  then have "\<bar>r * r\<bar> \<le> 2 powr 1023" using h pos by linarith
  ultimately obtain p where p: "round_double (r * r) = Num p"
      and "\<bar>p - r * r\<bar> \<le> 2 powr (- 53) * \<bar>r * r\<bar>"
    using round_double_normal [of "r * r"] by blast
  then have "\<bar>p - r * r\<bar> \<le> 1 / 2 ^ 53 * \<bar>r * r\<bar>"
    by (simp only: unit_roundoff)
  then have b: "(1 - 1 / 2 ^ 53) * (r * r) \<le> p" "p \<le> (1 + 1 / 2 ^ 53) * (r * r)"
    using relative_error_bounds [of p "r * r" "1 / 2 ^ 53"] pos by blast+
  have "(1 - 1 / 2 ^ 53) * 2 powr (- 998) \<le> (1 - 1 / 2 ^ 53) * (r * r)"
    using l by (intro mult_left_mono) simp_all
  moreover have "(1 + 1 / 2 ^ 53) * (r * r) \<le> (1 + 1 / 2 ^ 53) * 2 powr 978"
    using h by (intro mult_left_mono) simp_all
  moreover have "times_double (Num r) (Num r) = Num p"
    using r0 p by (simp add: times_double_def is_inf_def is_zero_def number_value_def)
  ultimately show ?thesis using b by (intro exI [of _ p]) linarith
qed

lemma plus_step:
  assumes "0 \<le> \<sigma>" "0 \<le> p" and lo: "2 powr (- 1022) \<le> \<sigma> + p" and hi: "\<sigma> + p \<le> 2 powr 1023"
  shows "\<exists>\<sigma>'. plus_double (Num \<sigma>) (Num p) = Num \<sigma>'
              \<and> (1 - 1 / 2 ^ 53) * (\<sigma> + p) \<le> \<sigma>' \<and> \<sigma>' \<le> (1 + 1 / 2 ^ 53) * (\<sigma> + p)"
proof -
  have "(0::real) < 2 powr (- 1022)" by simp
  with lo have pos: "0 < \<sigma> + p" by linarith
  then have "2 powr (- 1022) \<le> \<bar>\<sigma> + p\<bar>" "\<bar>\<sigma> + p\<bar> \<le> 2 powr 1023"
    using lo hi by linarith+
  then obtain s where s: "round_double (\<sigma> + p) = Num s"
      and "\<bar>s - (\<sigma> + p)\<bar> \<le> 2 powr (- 53) * \<bar>\<sigma> + p\<bar>"
    using round_double_normal [of "\<sigma> + p"] by blast
  then have "\<bar>s - (\<sigma> + p)\<bar> \<le> 1 / 2 ^ 53 * \<bar>\<sigma> + p\<bar>"
    by (simp only: unit_roundoff)
  then have b: "(1 - 1 / 2 ^ 53) * (\<sigma> + p) \<le> s" "s \<le> (1 + 1 / 2 ^ 53) * (\<sigma> + p)"
    using relative_error_bounds [of s "\<sigma> + p" "1 / 2 ^ 53"] pos by blast+
  have "\<not> (\<sigma> = 0 \<and> p = 0)" using pos by auto
  then have "plus_double (Num \<sigma>) (Num p) = Num s"
    using pos s by (auto simp: plus_double_def is_inf_def is_zero_def number_value_def)
  with b show ?thesis by blast
qed

lemma range_facts:
  "(2::real) powr (- 1022) \<le> 1 / 2 * 2 powr (- 998)"
  "(2::real) powr 978 * (2 ^ 21 + 2) \<le> 2 powr 1023"
  "(2::real) powr (- 1000) \<le> 1 / 2 * 2 powr (- 998)"
  "(2::real) powr 978 * (2 ^ 21 + 2) \<le> 2 powr 1000"
proof -
  have n: "(2::real) powr (- 1022) = 1 / 2 ^ 1022" "(2::real) powr (- 998) = 1 / 2 ^ 998"
    "(2::real) powr (- 1000) = 1 / 2 ^ 1000"
    by (simp_all add: powr_minus_divide)
  have p: "(2::real) powr 978 = 2 ^ 978" "(2::real) powr 1023 = 2 ^ 1023"
    "(2::real) powr 1000 = 2 ^ 1000"
    by simp_all
  show "(2::real) powr (- 1022) \<le> 1 / 2 * 2 powr (- 998)"
    unfolding n by simp
  show "(2::real) powr (- 1000) \<le> 1 / 2 * 2 powr (- 998)"
    unfolding n by simp
  show "(2::real) powr 978 * (2 ^ 21 + 2) \<le> 2 powr 1023"
    unfolding p by simp
  show "(2::real) powr 978 * (2 ^ 21 + 2) \<le> 2 powr 1000"
    unfolding p by simp
qed

lemma plus_double_zero_zero: "plus_double (Num 0) (Num 0) = Num 0"
  by (simp add: plus_double_def is_inf_def is_zero_def signed_zero_def)

lemma moderate_cases:
  assumes "moderate x"
  obtains "is_zero x" | r where "x = Num r" "2 powr (- 499) \<le> \<bar>r\<bar>" "\<bar>r\<bar> \<le> 2 powr 489" "\<not> is_zero x"
proof -
  from assms consider "is_zero x"
    | r where "x = Num r" "2 powr (- 499) \<le> \<bar>r\<bar>" "\<bar>r\<bar> \<le> 2 powr 489"
    unfolding moderate_def by blast
  then show thesis
  proof cases
    case 1
    then show thesis by (rule that(1))
  next
    case (2 r)
    have "(0::real) < 2 powr (- 499)" by simp
    with 2(2) have "r \<noteq> 0" by auto
    then have "\<not> is_zero x" by (simp add: 2(1) is_zero_def)
    with 2 show thesis by (rule that(2))
  qed
qed

lemma sum_squares_range:
  assumes "list_all moderate v" and "length v \<le> 2 ^ 20"
  shows "\<exists>\<sigma>. sum_squares v = Num \<sigma>
           \<and> \<sigma> \<le> 2 powr 978 * real (length v) * (1 + 1 / 2 ^ 53) ^ Suc (length v)
           \<and> (if list_all is_zero v then \<sigma> = 0
               else (1 - 1 / 2 ^ 53) ^ Suc (length v) * 2 powr (- 998) \<le> \<sigma>)"
proof -
  define a :: real where "a = 1 - 1 / 2 ^ 53"
  define b :: real where "b = 1 + 1 / 2 ^ 53"
  define lo :: real where "lo = 2 powr (- 998)"
  define hi :: real where "hi = 2 powr 978"
  have a: "0 < a" "a \<le> 1" and b: "1 \<le> b" "0 < b" "b \<le> 2"
    by (simp_all add: a_def b_def)
  have lo: "0 < lo" and hi: "0 < hi" by (simp_all add: lo_def hi_def)
  have dec: "1 / 2 \<le> a ^ n" if "n \<le> 2 ^ 21" for n
    unfolding a_def using that by (rule roundoff_decay)
  have gro: "b ^ n \<le> 2" if "n \<le> 2 ^ 21" for n
    unfolding b_def using that by (rule roundoff_growth)
  have f1: "2 powr (- 1022) \<le> 1 / 2 * lo" and f2: "hi * (2 ^ 21 + 2) \<le> 2 powr 1023"
    unfolding lo_def hi_def by (rule range_facts)+
  have "list_all moderate v \<Longrightarrow> length v \<le> 2 ^ 20 \<Longrightarrow>
        \<exists>\<sigma>. sum_squares v = Num \<sigma> \<and> \<sigma> \<le> hi * real (length v) * b ^ Suc (length v)
           \<and> (if list_all is_zero v then \<sigma> = 0 else a ^ Suc (length v) * lo \<le> \<sigma>)"
  proof (induction v rule: rev_induct)
    case Nil
    then show ?case by (simp add: sum_squares_def)
  next
    case (snoc x xs)
    define k where "k = length xs"
    have k: "Suc k \<le> 2 ^ 20" using snoc.prems(2) by (simp add: k_def)
    then have k21: "Suc k \<le> 2 ^ 21" "Suc (Suc k) \<le> 2 ^ 21" by simp_all
    have "list_all moderate xs" and x: "moderate x" using snoc.prems(1) by simp_all
    moreover have "length xs \<le> 2 ^ 20" using snoc.prems(2) by simp
    ultimately obtain \<sigma> where s: "sum_squares xs = Num \<sigma>"
        and up: "\<sigma> \<le> hi * real k * b ^ Suc k"
        and low: "if list_all is_zero xs then \<sigma> = 0 else a ^ Suc k * lo \<le> \<sigma>"
      using snoc.IH unfolding k_def by blast
    define A where "A = a ^ Suc k * lo"
    define B where "B = hi * real k * b ^ Suc k"
    have A: "1 / 2 * lo \<le> A"
      unfolding A_def using dec [OF k21(1)] lo by (intro mult_right_mono) simp_all
    have A0: "0 < A" using A lo by linarith
    have B0: "0 \<le> B" unfolding B_def using hi b by simp
    have \<sigma>0: "0 \<le> \<sigma>" using low A0 unfolding A_def by (auto split: if_splits)
    have "real k \<le> 2 ^ 20"
      using k by (metis Suc_leD of_nat_le_iff of_nat_numeral of_nat_power)
    then have h1: "hi * real k \<le> hi * 2 ^ 20" using hi by (intro mult_left_mono) simp_all
    have h2: "0 \<le> b ^ Suc k" using b(2) by (intro zero_le_power) simp
    have h3: "(0::real) \<le> hi * 2 ^ 20" using hi by simp
    have "hi * real k * b ^ Suc k \<le> hi * 2 ^ 20 * 2"
      by (rule mult_mono [OF h1 gro [OF k21(1)] h3 h2])
    then have B: "B \<le> hi * 2 ^ 21" by (simp add: B_def)
    have "b * hi \<le> 2 * hi" using b hi by (intro mult_right_mono) simp_all
    with B have "B + b * hi \<le> hi * (2 ^ 21 + 2)" by (simp add: algebra_simps)
    with f2 have Bhi: "B + b * hi \<le> 2 powr 1023" by linarith
    have step_up: "b * (B + b * hi) \<le> hi * real (Suc k) * b ^ Suc (Suc k)"
      unfolding B_def using b(1) hi by (intro upper_step) simp_all
    have step_low: "a ^ Suc (Suc k) * lo \<le> a * (a * lo)"
      using a lo by (intro lower_step) simp_all
    have len: "length (xs @ [x]) = Suc k" by (simp add: k_def)
    have sum: "sum_squares (xs @ [x]) = plus_double (Num \<sigma>) (times_double x x)"
      by (simp add: sum_squares_snoc s)
    from x show ?case
    proof (cases rule: moderate_cases)
      case 1
      then have t: "times_double x x = Num 0" by (rule times_double_zero)
      show ?thesis
      proof (cases "list_all is_zero xs")
        case True
        then have "\<sigma> = 0" using low by simp
        then have "sum_squares (xs @ [x]) = Num 0"
          by (simp add: sum t plus_double_zero_zero)
        moreover have "(0::real) \<le> hi * real (Suc k) * b ^ Suc (Suc k)"
          using hi b by simp
        ultimately show ?thesis
          using True 1 unfolding len by auto
      next
        case False
        then have l: "A \<le> \<sigma>" using low by (simp add: A_def)
        have "2 powr (- 1022) \<le> \<sigma> + 0" using l A f1 by linarith
        moreover have "\<sigma> + 0 \<le> 2 powr 1023"
          using up Bhi b hi unfolding B_def [symmetric]
          by (smt (verit) mult_nonneg_nonneg)
        ultimately obtain \<sigma>' where p: "plus_double (Num \<sigma>) (Num 0) = Num \<sigma>'"
            and "a * (\<sigma> + 0) \<le> \<sigma>'" "\<sigma>' \<le> b * (\<sigma> + 0)"
          using plus_step [of \<sigma> 0] \<sigma>0 unfolding a_def b_def by auto
        then have e1: "a * \<sigma> \<le> \<sigma>'" and e2: "\<sigma>' \<le> b * \<sigma>" by simp_all
        have "a * A \<le> a * \<sigma>" using l a by (intro mult_left_mono) simp_all
        moreover have "a * A = a ^ Suc (Suc k) * lo" by (simp add: A_def)
        ultimately have lower: "a ^ Suc (Suc k) * lo \<le> \<sigma>'" using e1 by linarith
        have "b * \<sigma> \<le> b * (B + b * hi)"
        proof -
          have "0 \<le> b * hi" using b hi by simp
          then have "\<sigma> \<le> B + b * hi" using up unfolding B_def [symmetric] by linarith
          then show ?thesis using b by (intro mult_left_mono) simp_all
        qed
        with e2 step_up have upper: "\<sigma>' \<le> hi * real (Suc k) * b ^ Suc (Suc k)" by linarith
        have "sum_squares (xs @ [x]) = Num \<sigma>'" by (simp add: sum t p)
        with lower upper False show ?thesis unfolding len by auto
      qed
    next
      case (2 r)
      then obtain p where t: "times_double x x = Num p" and pl: "a * lo \<le> p" and pu: "p \<le> b * hi"
        using square_moderate [of r] unfolding a_def b_def lo_def hi_def by blast
      have "1 / 2 * lo \<le> a * lo"
        using dec [of 1] lo by (intro mult_right_mono) simp_all
      with pl have p2: "1 / 2 * lo \<le> p" by linarith
      then have p0: "0 \<le> p" using lo by linarith
      have "2 powr (- 1022) \<le> \<sigma> + p" using p2 f1 \<sigma>0 by linarith
      moreover have \<sigma>p: "\<sigma> + p \<le> B + b * hi"
        using up pu unfolding B_def [symmetric] by linarith
      then have "\<sigma> + p \<le> 2 powr 1023" using Bhi by linarith
      ultimately obtain \<sigma>' where q: "plus_double (Num \<sigma>) (Num p) = Num \<sigma>'"
          and e1: "a * (\<sigma> + p) \<le> \<sigma>'" and e2: "\<sigma>' \<le> b * (\<sigma> + p)"
        using plus_step [of \<sigma> p] \<sigma>0 p0 unfolding a_def b_def by auto
      have "a * (a * lo) \<le> a * (\<sigma> + p)"
        using pl \<sigma>0 a by (intro mult_left_mono) simp_all
      with e1 step_low have lower: "a ^ Suc (Suc k) * lo \<le> \<sigma>'" by linarith
      have "b * (\<sigma> + p) \<le> b * (B + b * hi)"
        using \<sigma>p b by (intro mult_left_mono) simp_all
      with e2 step_up have upper: "\<sigma>' \<le> hi * real (Suc k) * b ^ Suc (Suc k)" by linarith
      have "sum_squares (xs @ [x]) = Num \<sigma>'" by (simp add: sum t q)
      moreover have "\<not> list_all is_zero (xs @ [x])" using 2(4) by simp
      ultimately show ?thesis using lower upper unfolding len by auto
    qed
  qed
  then show ?thesis
    using assms unfolding a_def b_def lo_def hi_def by blast
qed

lemma sum_squares_moderate:
  assumes m: "list_all moderate v" and nz: "\<not> list_all is_zero v" and len: "length v \<le> 2 ^ 20"
  shows "\<exists>\<sigma>. sum_squares v = Num \<sigma> \<and> 2 powr (- 1000) \<le> \<sigma> \<and> \<sigma> \<le> 2 powr 1000"
proof -
  define a :: real where "a = 1 - 1 / 2 ^ 53"
  define b :: real where "b = 1 + 1 / 2 ^ 53"
  define lo :: real where "lo = 2 powr (- 998)"
  define hi :: real where "hi = 2 powr 978"
  define n where "n = length v"
  have b: "0 < b" by (simp add: b_def)
  have lo: "0 < lo" and hi: "0 < hi" by (simp_all add: lo_def hi_def)
  have n21: "Suc n \<le> 2 ^ 21" using len by (simp add: n_def)
  obtain \<sigma> where s: "sum_squares v = Num \<sigma>"
      and up: "\<sigma> \<le> hi * real n * b ^ Suc n"
      and low: "a ^ Suc n * lo \<le> \<sigma>"
    using sum_squares_range [OF m len] nz unfolding a_def b_def lo_def hi_def n_def by auto
  have "1 / 2 * lo \<le> a ^ Suc n * lo"
    unfolding a_def using roundoff_decay [OF n21] lo by (intro mult_right_mono) simp_all
  moreover have "2 powr (- 1000) \<le> 1 / 2 * lo"
    unfolding lo_def by (rule range_facts)
  ultimately have l: "2 powr (- 1000) \<le> \<sigma>" using low by linarith
  have "real n \<le> 2 ^ 20"
    using len unfolding n_def by (metis of_nat_le_iff of_nat_numeral of_nat_power)
  then have h1: "hi * real n \<le> hi * 2 ^ 20" using hi by (intro mult_left_mono) simp_all
  have h2: "0 \<le> b ^ Suc n" using b by (intro zero_le_power) simp
  have h3: "(0::real) \<le> hi * 2 ^ 20" using hi by simp
  have h4: "b ^ Suc n \<le> 2" unfolding b_def by (rule roundoff_growth [OF n21])
  have "hi * real n * b ^ Suc n \<le> hi * 2 ^ 20 * 2"
    by (rule mult_mono [OF h1 h4 h3 h2])
  also have "\<dots> \<le> hi * (2 ^ 21 + 2)" using hi by simp
  also have "\<dots> \<le> 2 powr 1000" unfolding hi_def by (rule range_facts)
  finally have "\<sigma> \<le> 2 powr 1000" using up by linarith
  with s l show ?thesis by blast
qed

text \<open>
  Claim C4, as amended. For arrays of different lengths \<open>cosineSimilarity\<close> throws; for
  arrays of equal length it returns a number. It returns 0 whenever one of the two arrays
  holds zeros only. For every array \<open>v\<close> whose sum of squares, as the function computes it,
  is a finite number between \<open>2 powr - 1000\<close> and \<open>2 powr 1000\<close>, the similarity of \<open>v\<close>
  with itself is a finite number that differs from 1 by at most \<open>2 powr - 50\<close>. This is
  so for every array of at most \<open>2 ^ 20\<close> numbers that are not all zero, each of them a
  zero or a finite number of absolute value between \<open>2 powr - 499\<close> and \<open>2 powr 489\<close>.
\<close>

theorem cosineSimilarity_doubles:
  "(length a \<noteq> length b \<longrightarrow> cosineSimilarity a b = Inl Vector_length_error)
   \<and> (length a = length b \<longrightarrow> (\<exists>d. cosineSimilarity a b = Inr d))
   \<and> (length a = length b \<and> (list_all is_zero a \<or> list_all is_zero b)
        \<longrightarrow> cosineSimilarity a b = Inr (Num 0))
   \<and> (sum_squares v = Num \<sigma> \<and> 2 powr (- 1000) \<le> \<sigma> \<and> \<sigma> \<le> 2 powr 1000
        \<longrightarrow> (\<exists>\<rho>. cosineSimilarity v v = Inr (Num \<rho>) \<and> \<bar>\<rho> - 1\<bar> \<le> 2 powr (- 50)))
   \<and> (list_all moderate w \<and> \<not> list_all is_zero w \<and> length w \<le> 2 ^ 20
        \<longrightarrow> (\<exists>\<rho>. cosineSimilarity w w = Inr (Num \<rho>) \<and> \<bar>\<rho> - 1\<bar> \<le> 2 powr (- 50)))"
proof (intro conjI impI)
  assume "length a \<noteq> length b"
  then show "cosineSimilarity a b = Inl Vector_length_error"
    by (simp add: cosineSimilarity_def)
next
  assume "length a = length b"
  then show "\<exists>d. cosineSimilarity a b = Inr d"
    by (simp add: cosineSimilarity_def Let_def)
next
  assume "length a = length b \<and> (list_all is_zero a \<or> list_all is_zero b)"
  then show "cosineSimilarity a b = Inr (Num 0)"
    using cosineSimilarity_zero by blast
next
  assume "sum_squares v = Num \<sigma> \<and> 2 powr (- 1000) \<le> \<sigma> \<and> \<sigma> \<le> 2 powr 1000"
  then show "\<exists>\<rho>. cosineSimilarity v v = Inr (Num \<rho>) \<and> \<bar>\<rho> - 1\<bar> \<le> 2 powr (- 50)"
    using self_similarity by blast
next
  assume "list_all moderate w \<and> \<not> list_all is_zero w \<and> length w \<le> 2 ^ 20"
  then obtain s where "sum_squares w = Num s" "2 powr (- 1000) \<le> s" "s \<le> 2 powr 1000"
    using sum_squares_moderate [of w] by blast
  then show "\<exists>\<rho>. cosineSimilarity w w = Inr (Num \<rho>) \<and> \<bar>\<rho> - 1\<bar> \<le> 2 powr (- 50)"
    by (rule self_similarity)
qed

theorem cosineSimilarity_doubles_witness:
  "cosineSimilarity [Num 1] [Num 3, Num 4] = Inl Vector_length_error
   \<and> (\<exists>d. cosineSimilarity [Num 0, Neg_zero] [Num 3, Num 4] = Inr d)
   \<and> cosineSimilarity [Num 0, Neg_zero] [Num 3, Num 4] = Inr (Num 0)
   \<and> sum_squares [Num 3, Num 4] = Num 25
   \<and> (\<exists>\<rho>. cosineSimilarity [Num 3, Num 4] [Num 3, Num 4] = Inr (Num \<rho>)
            \<and> \<bar>\<rho> - 1\<bar> \<le> 2 powr (- 50))
   \<and> list_all moderate [Num 1, Num 0, Num (- 2)]
   \<and> (\<exists>\<rho>. cosineSimilarity [Num 1, Num 0, Num (- 2)] [Num 1, Num 0, Num (- 2)] = Inr (Num \<rho>)
            \<and> \<bar>\<rho> - 1\<bar> \<le> 2 powr (- 50))"
proof -
  have r: "round_double 9 = Num 9" "round_double 16 = Num 16" "round_double 25 = Num 25"
    using round_double_int [of 9] round_double_int [of 16] round_double_int [of 25] by simp_all
  have s: "sum_squares [Num 3, Num 4] = Num 25"
    by (simp add: sum_squares_def times_double_def plus_double_def is_inf_def is_zero_def
        number_value_def r)
  have z: "list_all is_zero [Num 0, Neg_zero]"
    by (simp add: is_zero_def)
  have "(2::real) powr (- 1000) \<le> 2 powr 0" by (rule two_powr_mono) simp
  moreover have "(2::real) powr 5 \<le> 2 powr 1000" by (rule two_powr_mono) simp
  moreover have "(2::real) powr 0 = 1" "(2::real) powr 5 = 32" by simp_all
  ultimately have b: "(2::real) powr (- 1000) \<le> 25" "(25::real) \<le> 2 powr 1000"
    by linarith+
  have "(2::real) powr (- 499) \<le> 2 powr 0" by (rule two_powr_mono) simp
  moreover have "(2::real) powr 1 \<le> 2 powr 489" by (rule two_powr_mono) simp
  moreover have "(2::real) powr 0 = 1" "(2::real) powr 1 = 2" by simp_all
  ultimately have c: "(2::real) powr (- 499) \<le> 1" "(2::real) \<le> 2 powr 489"
    by linarith+
  have m: "list_all moderate [Num 1, Num 0, Num (- 2)]"
    using c by (simp add: moderate_def is_zero_def)
  have nz: "\<not> list_all is_zero [Num 1, Num 0, Num (- 2)]"
    by (simp add: is_zero_def)
  have len: "length [Num 1, Num 0, Num (- 2)] \<le> 2 ^ 20" by simp
  from cosineSimilarity_doubles [of "[Num 1]" "[Num 3, Num 4]"]
  have 1: "cosineSimilarity [Num 1] [Num 3, Num 4] = Inl Vector_length_error"
    by simp
  from cosineSimilarity_doubles [of "[Num 0, Neg_zero]" "[Num 3, Num 4]" "[Num 3, Num 4]" 25
       "[Num 1, Num 0, Num (- 2)]"] z s b m nz len
  have 2: "\<exists>d. cosineSimilarity [Num 0, Neg_zero] [Num 3, Num 4] = Inr d"
    and 3: "cosineSimilarity [Num 0, Neg_zero] [Num 3, Num 4] = Inr (Num 0)"
    and 4: "\<exists>\<rho>. cosineSimilarity [Num 3, Num 4] [Num 3, Num 4] = Inr (Num \<rho>)
            \<and> \<bar>\<rho> - 1\<bar> \<le> 2 powr (- 50)"
    and 5: "\<exists>\<rho>. cosineSimilarity [Num 1, Num 0, Num (- 2)] [Num 1, Num 0, Num (- 2)] = Inr (Num \<rho>)
            \<and> \<bar>\<rho> - 1\<bar> \<le> 2 powr (- 50)"
    by simp_all
  from 1 2 3 s 4 m 5 show ?thesis by (intro conjI)
qed

text \<open>
  The claim C4 as it is written fails in both halves. The result is 0 for the orthogonal
  arrays \<open>[1, 0]\<close> and \<open>[0, 1]\<close>, both of magnitude 1. For the array that holds the one
  number \<open>2 powr 600\<close> the square overflows and the similarity with itself is NaN; for
  the one number \<open>2 powr - 600\<close> the square underflows to 0, and the similarity of this
  non-zero array with itself is 0.
\<close>

theorem cosineSimilarity_counterexample:
  "cosineSimilarity [Num 1, Num 0] [Num 0, Num 1] = Inr (Num 0)
   \<and> sqrt_double (sum_squares [Num 1, Num 0]) = Num 1
   \<and> sqrt_double (sum_squares [Num 0, Num 1]) = Num 1
   \<and> cosineSimilarity [Num (2 powr 600)] [Num (2 powr 600)] = Inr NaN
   \<and> cosineSimilarity [Num (2 powr (- 600))] [Num (2 powr (- 600))] = Inr (Num 0)"
proof -
  have o: "cosineSimilarity [Num (2 powr 600)] [Num (2 powr 600)] = Inr NaN"
    using cosineSimilarity_overflow [of 600] by simp
  have u: "cosineSimilarity [Num (2 powr (- 600))] [Num (2 powr (- 600))] = Inr (Num 0)"
    using cosineSimilarity_underflow [of "- 600"] by simp
  from cosineSimilarity_orthogonal o u show ?thesis by (simp only: simp_thms)
qed

section \<open>Dates in storage\<close>

subsection \<open>Years, months and the time within the day\<close>

lemma div_succ:
  fixes a k :: int
  assumes "0 < k"
  shows "(a + 1) div k = (if (a + 1) mod k = 0 then a div k + 1 else a div k)"
proof -
  have r: "0 \<le> a mod k" "a mod k < k" using assms by simp_all
  have split: "a + 1 = k * (a div k) + (a mod k + 1)" by simp
  show ?thesis
  proof (cases "a mod k + 1 = k")
    case True
    then have "a + 1 = k * (a div k + 1)"
      using split by (simp add: algebra_simps)
    then show ?thesis using assms by simp
  next
    case False
    with r have lt: "a mod k + 1 < k" by simp
    have k0: "k \<noteq> 0" using assms by simp
    have "(k * (a div k) + (a mod k + 1)) div k = a div k + (a mod k + 1) div k"
      by (rule div_mult_self4 [OF k0])
    moreover have "(a mod k + 1) div k = 0"
      using r lt by (simp add: div_pos_pos_trivial)
    moreover have "(k * (a div k) + (a mod k + 1)) mod k = (a mod k + 1) mod k"
      by (rule mod_mult_self4)
    moreover have "(a mod k + 1) mod k = a mod k + 1"
      using r lt by (simp add: mod_pos_pos_trivial)
    ultimately have "(a + 1) div k = a div k" and "(a + 1) mod k \<noteq> 0"
      using r by (simp_all only: split [symmetric])
    then show ?thesis by simp
  qed
qed

lemma mod_shift:
  fixes y k c :: int
  assumes "c mod k = 0"
  shows "(y - c) mod k = y mod k"
proof -
  have "(y - c) mod k = (y - c mod k) mod k" by (simp only: mod_diff_right_eq)
  then show ?thesis using assms by simp
qed

lemma DayFromYear_next: "DayFromYear (y + 1) = DayFromYear y + DaysInYear y"
proof -
  have m4: "(y - 1969 + 1) mod 4 = 0 \<longleftrightarrow> y mod 4 = 0"
    using mod_shift [of 1968 4 y] by simp
  have m100: "(y - 1901 + 1) mod 100 = 0 \<longleftrightarrow> y mod 100 = 0"
    using mod_shift [of 1900 100 y] by simp
  have m400: "(y - 1601 + 1) mod 400 = 0 \<longleftrightarrow> y mod 400 = 0"
    using mod_shift [of 1600 400 y] by simp
  define a b c where "a = (y - 1969) div 4" and "b = (y - 1901) div 100"
    and "c = (y - 1601) div 400"
  have d4: "(y + 1 - 1969) div 4 = (if y mod 4 = 0 then a + 1 else a)"
    using div_succ [of 4 "y - 1969"] m4 by (simp add: algebra_simps a_def)
  have d100: "(y + 1 - 1901) div 100 = (if y mod 100 = 0 then b + 1 else b)"
    using div_succ [of 100 "y - 1901"] m100 by (simp add: algebra_simps b_def)
  have d400: "(y + 1 - 1601) div 400 = (if y mod 400 = 0 then c + 1 else c)"
    using div_succ [of 400 "y - 1601"] m400 by (simp add: algebra_simps c_def)
  have i1: "y mod 100 = 0 \<Longrightarrow> y mod 4 = 0"
    using mod_mod_cancel [of 4 100 y] by simp
  have i2: "y mod 400 = 0 \<Longrightarrow> y mod 100 = 0"
    using mod_mod_cancel [of 100 400 y] by simp
  have "DayFromYear y = 365 * (y - 1970) + a - b + c"
    by (simp add: DayFromYear_def a_def b_def c_def)
  moreover have "DayFromYear (y + 1) = 365 * (y + 1 - 1970)
      + (if y mod 4 = 0 then a + 1 else a) - (if y mod 100 = 0 then b + 1 else b)
      + (if y mod 400 = 0 then c + 1 else c)"
    unfolding DayFromYear_def by (simp only: d4 d100 d400)
  ultimately show ?thesis
    using i1 i2 by (simp add: DaysInYear_def)
qed

lemma DayFromYear_mono: "y \<le> y' \<Longrightarrow> DayFromYear y \<le> DayFromYear y'"
proof (induction y' rule: int_ge_induct)
  case base
  then show ?case by simp
next
  case (step i)
  then show ?case using DayFromYear_step [of i] by simp
qed

lemma year_down_le: "DayFromYear (year_down d y) \<le> d"
  by (induction d y rule: year_down.induct) (simp add: year_down.simps)

lemma year_up_bounds:
  "DayFromYear y \<le> d \<Longrightarrow>
   DayFromYear (year_up d y) \<le> d \<and> d < DayFromYear (year_up d y + 1)"
proof (induction d y rule: year_up.induct)
  case (1 d y)
  show ?case
  proof (cases "DayFromYear (y + 1) \<le> d")
    case True
    with "1.IH" show ?thesis by (subst (1 2) year_up.simps) simp
  next
    case False
    with "1.prems" show ?thesis by (subst (1 2) year_up.simps) simp
  qed
qed

lemma YearFromDay_bounds:
  "DayFromYear (YearFromDay d) \<le> d \<and> d < DayFromYear (YearFromDay d + 1)"
  unfolding YearFromDay_def by (rule year_up_bounds) (rule year_down_le)

lemma month_start_values:
  "month_start leap 0 = 0" "month_start leap 1 = 31" "month_start leap (Suc 0) = 31"
  "month_start leap 2 = (if leap then 60 else 59)"
  "month_start leap (Suc (Suc 0)) = (if leap then 60 else 59)" "month_start leap 3 = (if leap then 91 else 90)"
  "month_start leap 4 = (if leap then 121 else 120)" "month_start leap 5 = (if leap then 152 else 151)"
  "month_start leap 6 = (if leap then 182 else 181)" "month_start leap 7 = (if leap then 213 else 212)"
  "month_start leap 8 = (if leap then 244 else 243)" "month_start leap 9 = (if leap then 274 else 273)"
  "month_start leap 10 = (if leap then 305 else 304)" "month_start leap 11 = (if leap then 335 else 334)"
  "month_start leap 12 = (if leap then 366 else 365)"
  by (simp_all add: month_start_def numeral_2_eq_2 [symmetric])

lemma MonthFromDay_cases:
  assumes "0 \<le> dwy" and "dwy < month_start leap 12"
  obtains m where "MonthFromDay leap dwy = m" and "m \<in> {0, 1, 2, 3, 4, 5, 6, 7, 8, 9, 10, 11}"
    and "month_start leap m \<le> dwy" and "dwy < month_start leap (m + 1)"
proof -
  have "MonthFromDay leap dwy \<in> {0, 1, 2, 3, 4, 5, 6, 7, 8, 9, 10, 11}"
    by (simp add: MonthFromDay_def)
  moreover have "month_start leap (MonthFromDay leap dwy) \<le> dwy"
    using assms(1) by (cases leap) (simp_all add: MonthFromDay_def month_start_values)
  moreover have "dwy < month_start leap (MonthFromDay leap dwy + 1)"
    using assms(2) by (cases leap) (simp_all add: MonthFromDay_def month_start_values)
  ultimately show ?thesis using that by blast
qed


lemma digit_char_props:
  "k < 10 \<Longrightarrow> is_digit (digit_char k)"
  "k < 10 \<Longrightarrow> digit_val (digit_char k) = k"
  "k < 10 \<Longrightarrow> digit_char k \<noteq> CHR ''+''"
  "k < 10 \<Longrightarrow> digit_char k \<noteq> CHR ''-''"
proof -
  assume k: "k < 10"
  then have c: "code_unit (digit_char k) = 48 + k"
    by (simp add: code_unit_def digit_char_def)
  show "is_digit (digit_char k)" using k c by (simp add: is_digit_def)
  show "digit_val (digit_char k) = k" using c by (simp add: digit_val_def)
  have "code_unit CHR ''+'' = 43" "code_unit CHR ''-'' = 45" by (simp_all add: code_unit_def)
  with c show "digit_char k \<noteq> CHR ''+''" "digit_char k \<noteq> CHR ''-''" by auto
qed

lemma length_pad: "length (pad w n) = w"
  by (induction w arbitrary: n) simp_all

lemma pad_digits: "list_all is_digit (pad w n)"
  by (induction w arbitrary: n) (simp_all add: digit_char_props)

lemma fold_pad:
  "fold (\<lambda>c n. 10 * n + digit_val c) (pad w n) acc = acc * 10 ^ w + n mod 10 ^ w"
proof (induction w arbitrary: n acc)
  case 0
  then show ?case by simp
next
  case (Suc w)
  have "fold (\<lambda>c n. 10 * n + digit_val c) (pad (Suc w) n) acc
          = 10 * (acc * 10 ^ w + n div 10 mod 10 ^ w) + n mod 10"
    by (simp add: Suc digit_char_props)
  also have "\<dots> = acc * 10 ^ Suc w + (10 * (n div 10 mod 10 ^ w) + n mod 10)"
    by (simp add: algebra_simps)
  also have "10 * (n div 10 mod 10 ^ w) + n mod 10 = n mod 10 ^ Suc w"
    using mod_mult2_eq [of n 10 "10 ^ w"] by simp
  finally show ?case .
qed

lemma read_field_pad:
  "n < 10 ^ w \<Longrightarrow> read_field w (pad w n @ rest) = Some (n, rest)"
  by (simp add: read_field_def length_pad pad_digits fold_pad)

lemma read_char_Cons: "read_char c (c # rest) = Some rest"
  by (simp add: read_char_def)

lemma pad_Suc_hd: "\<exists>k<10. \<exists>r. pad (Suc w) n = digit_char k # r"
proof (induction w arbitrary: n)
  case 0
  have "n mod 10 < 10" by simp
  then show ?case by (intro exI [of _ "n mod 10"]) simp
next
  case (Suc w)
  from Suc [of "n div 10"] obtain k r where "k < 10" "pad (Suc w) (n div 10) = digit_char k # r"
    by blast
  then have "pad (Suc (Suc w)) n = digit_char k # (r @ [digit_char (n mod 10)])"
    by simp
  with \<open>k < 10\<close> show ?case by blast
qed

subsection \<open>Reading back what \<open>toISOString\<close> writes\<close>

lemma read_year_year_string:
  assumes "- 999999 \<le> y" and "y \<le> 999999"
  shows "read_year (year_string y @ rest) = Some (y, rest)"
proof -
  consider "0 \<le> y \<and> y \<le> 9999" | "y < 0" | "9999 < y" by linarith
  then show ?thesis
  proof cases
    case 1
    have e: "Suc 3 = 4" by simp
    obtain k r where k: "k < 10" "pad 4 (nat y) = digit_char k # r"
      using pad_Suc_hd [of 3 "nat y"] unfolding e by blast
    have "nat y < 10 ^ 4" using 1 by (simp add: nat_less_iff)
    then have "read_field 4 (pad 4 (nat y) @ rest) = Some (nat y, rest)"
      by (rule read_field_pad)
    moreover have "read_year (pad 4 (nat y) @ rest)
        = (case read_field 4 (pad 4 (nat y) @ rest) of None \<Rightarrow> None | Some (n, r) \<Rightarrow> Some (int n, r))"
      using digit_char_props(3,4) [OF k(1)] by (simp add: read_year_def k(2))
    ultimately show ?thesis using 1 by (simp add: year_string_def)
  next
    case 2
    have "nat (- y) < 10 ^ 6" using 2 assms by (simp add: nat_less_iff)
    then have "read_field 6 (pad 6 (nat (- y)) @ rest) = Some (nat (- y), rest)"
      by (rule read_field_pad)
    then show ?thesis using 2 by (simp add: year_string_def read_year_def)
  next
    case 3
    have "nat y < 10 ^ 6" using 3 assms by (simp add: nat_less_iff)
    then have "read_field 6 (pad 6 (nat y) @ rest) = Some (nat y, rest)"
      by (rule read_field_pad)
    then show ?thesis using 3 by (simp add: year_string_def read_year_def)
  qed
qed

lemma time_within_day:
  fixes tod :: int
  assumes "0 \<le> tod" and "tod < 86400000"
  shows "(tod div 3600000) * 3600000 + (tod div 60000 mod 60) * 60000
           + (tod div 1000 mod 60) * 1000 + tod mod 1000 = tod"
    and "tod div 3600000 \<le> 23" and "0 \<le> tod div 3600000"
proof -
  have a: "tod = 1000 * (tod div 1000) + tod mod 1000" by simp
  have b: "tod div 1000 = 60 * (tod div 1000 div 60) + tod div 1000 mod 60" by simp
  have c: "tod div 1000 div 60 = tod div 60000"
    by (simp add: div_mult2_eq [symmetric])
  have d: "tod div 60000 = 60 * (tod div 60000 div 60) + tod div 60000 mod 60" by simp
  have e: "tod div 60000 div 60 = tod div 3600000"
    by (simp add: div_mult2_eq [symmetric])
  define h mi mr se sr ms where "h = tod div 3600000" and "mi = tod div 60000"
    and "mr = tod div 60000 mod 60" and "se = tod div 1000" and "sr = tod div 1000 mod 60"
    and "ms = tod mod 1000"
  have 1: "tod = 1000 * se + ms" unfolding se_def ms_def by (rule a)
  have 2: "se = 60 * mi + sr" unfolding se_def mi_def sr_def using b c by simp
  have 3: "mi = 60 * h + mr" unfolding mi_def h_def mr_def using d e by simp
  have "h * 3600000 + mr * 60000 + sr * 1000 + ms = tod"
    unfolding 1 2 3 by simp
  then show "(tod div 3600000) * 3600000 + (tod div 60000 mod 60) * 60000
           + (tod div 1000 mod 60) * 1000 + tod mod 1000 = tod"
    unfolding h_def mr_def sr_def ms_def .
  have "tod div 3600000 \<le> 86399999 div 3600000"
    using assms by (intro zdiv_mono1) simp_all
  then show "tod div 3600000 \<le> 23" by simp
  show "0 \<le> tod div 3600000" using assms by (simp add: pos_imp_zdiv_nonneg_iff)
qed

lemma parse_iso_fields:
  assumes "- 999999 \<le> y" and "y \<le> 999999"
    and "mo < 100" and "dt < 100" and "h < 100" and "mi < 100" and "se < 100" and "ms < 1000"
  shows "parse_iso (year_string y @ ''-'' @ pad 2 mo @ ''-'' @ pad 2 dt @ ''T''
           @ pad 2 h @ '':'' @ pad 2 mi @ '':'' @ pad 2 se @ ''.'' @ pad 3 ms @ ''Z'')
         = (if 1 \<le> mo \<and> mo \<le> 12 \<and> 1 \<le> dt
               \<and> int dt \<le> month_start (InLeapYear y) mo - month_start (InLeapYear y) (mo - 1)
               \<and> h \<le> 23 \<and> mi \<le> 59 \<and> se \<le> 59
            then (let t = MakeDate (MakeDay y (mo - 1) (int dt))
                            (MakeTime (int h) (int mi) (int se) (int ms))
                  in if \<bar>t\<bar> \<le> maxTimeValue then Some t else None)
            else None)"
proof -
  have f2: "read_field 2 (pad 2 n @ rest) = Some (n, rest)" if "n < 100" for n rest
    using that by (intro read_field_pad) simp
  have f3: "read_field 3 (pad 3 n @ rest) = Some (n, rest)" if "n < 1000" for n rest
    using that by (intro read_field_pad) simp
  show ?thesis
    unfolding parse_iso_def
    by (simp only: append_Cons append_Nil read_year_year_string [OF assms(1,2)]
          f2 [OF assms(3)] f2 [OF assms(4)] f2 [OF assms(5)] f2 [OF assms(6)] f2 [OF assms(7)]
          f3 [OF assms(8)] read_char_Cons Option.bind.simps prod.case simp_thms)
qed

lemma DaysInYear_month_start: "month_start (InLeapYear y) 12 = DaysInYear y"
  by (auto simp: month_start_values InLeapYear_def DaysInYear_def)

lemma parse_iso_iso_string:
  assumes "\<bar>t\<bar> \<le> maxTimeValue"
  shows "parse_iso (iso_string t) = Some t"
proof -
  define d where "d = Day t"
  define tod where "tod = TimeWithinDay t"
  define y where "y = YearFromTime t"
  define dwy where "dwy = d - DayFromYear y"
  define leap where "leap = InLeapYear y"
  have t: "t = d * 86400000 + tod"
    by (simp add: d_def tod_def Day_def TimeWithinDay_def msPerDay_def)
  have tod: "0 \<le> tod" "tod < 86400000"
    by (simp_all add: tod_def TimeWithinDay_def msPerDay_def)
  have "(- 8640000000000000) div 86400000 \<le> t div (86400000::int)"
    using assms by (intro zdiv_mono1) (simp_all add: maxTimeValue_def)
  moreover have "t div (86400000::int) \<le> 8640000000000000 div 86400000"
    using assms by (intro zdiv_mono1) (simp_all add: maxTimeValue_def)
  ultimately have d: "- 100000000 \<le> d" "d \<le> 100000000"
    by (simp_all add: d_def Day_def msPerDay_def)
  have yb: "DayFromYear y \<le> d" "d < DayFromYear (y + 1)"
    using YearFromDay_bounds [of d] by (simp_all add: y_def YearFromTime_def d_def)
  have y_hi: "y \<le> 999999"
  proof (rule ccontr)
    assume "\<not> y \<le> 999999"
    then have "DayFromYear 1000000 \<le> DayFromYear y" by (intro DayFromYear_mono) simp
    moreover have "DayFromYear 1000000 > 100000000" by (simp add: DayFromYear_def)
    ultimately show False using yb(1) d(2) by simp
  qed
  have y_lo: "- 999999 \<le> y"
  proof (rule ccontr)
    assume "\<not> - 999999 \<le> y"
    then have "DayFromYear (y + 1) \<le> DayFromYear (- 999999)" by (intro DayFromYear_mono) simp
    moreover have "DayFromYear (- 999999) < - 100000000" by (simp add: DayFromYear_def)
    ultimately show False using yb(2) d(1) by simp
  qed
  have dwy: "0 \<le> dwy" "dwy < month_start leap 12"
    using yb by (simp_all add: dwy_def leap_def DaysInYear_month_start DayFromYear_next)
  from MonthFromDay_cases [OF dwy] obtain m where m: "MonthFromDay leap dwy = m"
    "m \<in> {0, 1, 2, 3, 4, 5, 6, 7, 8, 9, 10, 11}" "month_start leap m \<le> dwy"
    "dwy < month_start leap (m + 1)"
    by blast
  define dt where "dt = dwy - month_start leap m + 1"
  have m11: "m \<le> 11" using m(2) by auto
  have span: "month_start leap (m + 1) - month_start leap m \<le> 31"
    using m(2) by (auto simp: month_start_values)
  have dt: "1 \<le> dt" "dt \<le> month_start leap (m + 1) - month_start leap m" "dt \<le> 31"
    using m(3,4) span by (simp_all add: dt_def)
  define h mi se ms where "h = tod div 3600000" and "mi = tod div 60000 mod 60"
    and "se = tod div 1000 mod 60" and "ms = tod mod 1000"
  have hb: "0 \<le> h" "h \<le> 23" using time_within_day(2,3) [OF tod] by (simp_all add: h_def)
  have mib: "0 \<le> mi" "mi \<le> 59" by (simp_all add: mi_def)
  have seb: "0 \<le> se" "se \<le> 59" by (simp_all add: se_def)
  have msb: "0 \<le> ms" "ms \<le> 999" by (simp_all add: ms_def)
  have recompose: "h * 3600000 + mi * 60000 + se * 1000 + ms = tod"
    unfolding h_def mi_def se_def ms_def by (rule time_within_day(1) [OF tod])
  have iso: "iso_string t = year_string y @ ''-'' @ pad 2 (m + 1) @ ''-'' @ pad 2 (nat dt) @ ''T''
           @ pad 2 (nat h) @ '':'' @ pad 2 (nat mi) @ '':'' @ pad 2 (nat se) @ ''.''
           @ pad 3 (nat ms) @ ''Z''"
    unfolding iso_string_def Let_def
    by (simp only: y_def [symmetric] d_def [symmetric] dwy_def [symmetric] leap_def [symmetric]
          m(1) dt_def [symmetric] tod_def [symmetric] msPerHour_def msPerMinute_def msPerSecond_def
          h_def [symmetric] mi_def [symmetric] se_def [symmetric] ms_def [symmetric])
  have fields: "parse_iso (iso_string t)
         = (if 1 \<le> m + 1 \<and> m + 1 \<le> 12 \<and> 1 \<le> nat dt
               \<and> int (nat dt) \<le> month_start (InLeapYear y) (m + 1) - month_start (InLeapYear y) (m + 1 - 1)
               \<and> nat h \<le> 23 \<and> nat mi \<le> 59 \<and> nat se \<le> 59
            then (let t = MakeDate (MakeDay y (m + 1 - 1) (int (nat dt)))
                            (MakeTime (int (nat h)) (int (nat mi)) (int (nat se)) (int (nat ms)))
                  in if \<bar>t\<bar> \<le> maxTimeValue then Some t else None)
            else None)"
    unfolding iso
  proof (rule parse_iso_fields)
    show "- 999999 \<le> y" by (rule y_lo)
    show "y \<le> 999999" by (rule y_hi)
    show "m + 1 < 100" using m11 by simp
    show "nat dt < 100" using dt by simp
    show "nat h < 100" using hb by simp
    show "nat mi < 100" using mib by simp
    show "nat se < 100" using seb by simp
    show "nat ms < 1000" using msb by simp
  qed
  have valid: "1 \<le> m + 1 \<and> m + 1 \<le> 12 \<and> 1 \<le> nat dt
               \<and> int (nat dt) \<le> month_start (InLeapYear y) (m + 1) - month_start (InLeapYear y) (m + 1 - 1)
               \<and> nat h \<le> 23 \<and> nat mi \<le> 59 \<and> nat se \<le> 59"
    using m11 dt hb mib seb by (simp add: leap_def [symmetric] nat_le_iff Suc_le_eq)
  have "MakeDay y (m + 1 - 1) (int (nat dt)) = d"
    using dt(1) by (simp add: MakeDay_def leap_def [symmetric] dt_def dwy_def)
  moreover have "MakeTime (int (nat h)) (int (nat mi)) (int (nat se)) (int (nat ms)) = tod"
    using hb mib seb msb recompose
    by (simp add: MakeTime_def msPerHour_def msPerMinute_def msPerSecond_def)
  ultimately have restored: "MakeDate (MakeDay y (m + 1 - 1) (int (nat dt)))
                            (MakeTime (int (nat h)) (int (nat mi)) (int (nat se)) (int (nat ms))) = t"
    by (simp add: MakeDate_def msPerDay_def t)
  show ?thesis
    unfolding fields using valid assms by (simp only: if_True restored Let_def simp_thms)
qed

subsection \<open>Saving and loading\<close>

lemma new_Date_iso_string:
  "\<bar>t\<bar> \<le> maxTimeValue \<Longrightarrow> new_Date other (iso_string t) = TimeValue t"
  by (simp add: new_Date_def parse_iso_iso_string)

lemma deserialize_serialize:
  assumes "valid_date (created doc)"
  shows "\<exists>sd. serialize_document doc = Inr sd \<and> created (deserialize_document other sd) = created doc"
proof -
  from assms obtain t where t: "createdAt (metadata doc) = TimeValue t" "\<bar>t\<bar> \<le> maxTimeValue"
    by (auto simp: valid_date_def created_def split: date.splits)
  then show ?thesis
    by (simp add: serialize_document_def toISOString_def deserialize_document_def created_def
          new_Date_iso_string)
qed

lemma map_throwing_serialize:
  assumes "list_all (\<lambda>d. valid_date (created d)) docs"
  shows "\<exists>data. map_throwing serialize_document docs = Inr data
           \<and> map created (map (deserialize_document other) data) = map created docs"
  using assms
proof (induction docs)
  case Nil
  then show ?case by simp
next
  case (Cons doc docs)
  then obtain data where data: "map_throwing serialize_document docs = Inr data"
    "map created (map (deserialize_document other) data) = map created docs"
    by auto
  from Cons.prems obtain sd where sd: "serialize_document doc = Inr sd"
    "created (deserialize_document other sd) = created doc"
    using deserialize_serialize [of doc other] by auto
  show ?case
    using data sd by simp
qed

lemma map_throwing_invalid:
  assumes "\<exists>d\<in>set docs. created d = Invalid_Date"
  shows "\<exists>e. map_throwing serialize_document docs = Inl e"
  using assms
proof (induction docs)
  case Nil
  then show ?case by simp
next
  case (Cons doc docs)
  show ?case
  proof (cases "created doc = Invalid_Date")
    case True
    then show ?thesis
      by (simp add: serialize_document_def toISOString_def created_def)
  next
    case False
    with Cons obtain e where "map_throwing serialize_document docs = Inl e" by auto
    then show ?thesis by (simp split: sum.splits)
  qed
qed

lemma round_trip_under:
  assumes "list_all (\<lambda>d. valid_date (created d)) (documents s)"
  shows "map created (documents (load_under other key
            \<lparr>documents = ds0, localStorage = localStorage (save_under key s)\<rparr>))
         = map created (documents s)"
proof -
  from map_throwing_serialize [OF assms, of other] obtain data where
    data: "map_throwing serialize_document (documents s) = Inr data"
    "map created (map (deserialize_document other) data) = map created (documents s)"
    by blast
  have "localStorage (save_under key s) key = Some (Json_documents data)"
    by (simp add: save_under_def data(1))
  then show ?thesis
    using data(2) by (simp add: load_under_def)
qed

lemma save_under_invalid:
  assumes "\<exists>d\<in>set (documents s). created d = Invalid_Date"
  shows "save_under key s = s"
proof -
  from map_throwing_invalid [OF assms] obtain e where
    "map_throwing serialize_document (documents s) = Inl e" by blast
  then show ?thesis by (simp add: save_under_def)
qed

lemma serialize_document_valid:
  assumes "valid_date (created doc)"
  shows "\<exists>sd. serialize_document doc = Inr sd \<and> stored_as doc sd
           \<and> (\<forall>other. deserialize_document other sd = doc)"
proof -
  from assms obtain t where t: "createdAt (metadata doc) = TimeValue t" "\<bar>t\<bar> \<le> maxTimeValue"
    by (auto simp: valid_date_def created_def split: date.splits)
  define sd where "sd =
    \<lparr>s_id = id' doc, s_title = title doc, s_content = content doc, s_embedding = embedding doc,
     s_metadata = \<lparr>s_source = source (metadata doc), s_createdAt = iso_string t,
                    s_url = url (metadata doc), s_fileType = fileType (metadata doc)\<rparr>\<rparr>"
  have ser: "serialize_document doc = Inr sd"
    by (simp add: serialize_document_def toISOString_def t(1) sd_def)
  have st: "stored_as doc sd"
    by (simp add: stored_as_def sd_def created_def t(1))
  have "deserialize_document other sd = doc" for other
  proof -
    have "metadata (deserialize_document other sd) = metadata doc"
      by (rule metadata.equality)
         (simp_all add: deserialize_document_def sd_def new_Date_iso_string [OF t(2)] t(1))
    then show ?thesis
      by (intro document.equality) (simp_all add: deserialize_document_def sd_def)
  qed
  with ser st show ?thesis by blast
qed

lemma map_throwing_serialize_valid:
  assumes "list_all (\<lambda>d. valid_date (created d)) docs"
  shows "\<exists>data. map_throwing serialize_document docs = Inr data
           \<and> list_all2 stored_as docs data
           \<and> (\<forall>other. map (deserialize_document other) data = docs)"
  using assms
proof (induction docs)
  case Nil
  then show ?case by simp
next
  case (Cons doc docs)
  then obtain data where data: "map_throwing serialize_document docs = Inr data"
    "list_all2 stored_as docs data" "\<forall>other. map (deserialize_document other) data = docs"
    by auto
  from Cons.prems obtain sd where sd: "serialize_document doc = Inr sd" "stored_as doc sd"
    "\<forall>other. deserialize_document other sd = doc"
    using serialize_document_valid [of doc] by auto
  have "map_throwing serialize_document (doc # docs) = Inr (sd # data)"
    using data(1) sd(1) by simp
  moreover have "list_all2 stored_as (doc # docs) (sd # data)"
    using data(2) sd(2) by simp
  moreover have "\<forall>other. map (deserialize_document other) (sd # data) = doc # docs"
    using data(3) sd(3) by simp
  ultimately show ?case by blast
qed



lemma saved_save_under:
  assumes "list_all (\<lambda>d. valid_date (created d)) (documents t)"
    and "localStorage t = localStorage s"
  shows "saved_under key s (save_under key t)"
proof -
  from map_throwing_serialize_valid [OF assms(1)] obtain data where
    data: "map_throwing serialize_document (documents t) = Inr data"
    "list_all2 stored_as (documents t) data"
    "\<forall>other. map (deserialize_document other) data = documents t"
    by blast
  have st: "save_under key t = t\<lparr>localStorage := (localStorage t)(key \<mapsto> Json_documents data)\<rparr>"
    by (simp add: save_under_def data(1))
  have "\<exists>data. localStorage (save_under key t) key = Some (Json_documents data)
          \<and> list_all2 stored_as (documents (save_under key t)) data"
    using data(2) by (simp add: st)
  moreover have "\<forall>other. reloaded other key (save_under key t) = documents (save_under key t)"
    using data(3) by (simp add: st reloaded_def load_under_def)
  moreover have "\<forall>k. k \<noteq> key \<longrightarrow> localStorage (save_under key t) k = localStorage s k"
    by (simp add: st assms(2))
  ultimately show ?thesis
    unfolding saved_under_def by blast
qed

text \<open>
  Claim C8, as amended. When every document of the store has a valid date, saving (of
  either service) writes each \<open>createdAt\<close> as its ISO-8601 string, and loading what was
  saved gives documents with the same \<open>createdAt\<close> values, to the millisecond, in the same
  order. When a document has an Invalid Date, \<open>toISOString\<close> throws inside the \<open>try\<close>
  block and the save writes nothing.
\<close>

theorem createdAt_round_trip:
  "(list_all (\<lambda>d. valid_date (created d)) (documents s) \<longrightarrow>
      map created (documents (loadFromStorage other
          \<lparr>documents = ds0, localStorage = localStorage (saveToStorage s)\<rparr>))
        = map created (documents s)
      \<and> map created (documents (loadFromLocalStorage other
          \<lparr>documents = ds0, localStorage = localStorage (saveToLocalStorage s)\<rparr>))
        = map created (documents s))
   \<and> ((\<exists>d\<in>set (documents s). created d = Invalid_Date) \<longrightarrow>
        saveToStorage s = s \<and> saveToLocalStorage s = s)"
  by (simp add: loadFromStorage_def saveToStorage_def loadFromLocalStorage_def
        saveToLocalStorage_def round_trip_under save_under_invalid)

theorem createdAt_round_trip_witness:
  "list_all (\<lambda>d. valid_date (created d)) (documents example_store)
   \<and> map created (documents example_store)
       = [TimeValue 1700000000000, TimeValue 1700000000001, TimeValue 1700000000002]
   \<and> map_sum id (\<lambda>sd. s_createdAt (s_metadata sd)) (serialize_document doc_rag)
       = Inr ''2023-11-14T22:13:20.001Z''
   \<and> map created (documents (loadFromStorage (\<lambda>s. Invalid_Date)
          \<lparr>documents = [], localStorage = localStorage (saveToStorage example_store)\<rparr>))
       = [TimeValue 1700000000000, TimeValue 1700000000001, TimeValue 1700000000002]
   \<and> (\<exists>d\<in>set (documents bad_date_store). created d = Invalid_Date)
   \<and> saveToStorage bad_date_store = bad_date_store"
proof -
  have v: "list_all (\<lambda>d. valid_date (created d)) (documents example_store)"
    by (simp add: example_store_def doc_mistral_def doc_rag_def doc_chatbot_def valid_date_def
          created_def maxTimeValue_def)
  have c: "map created (documents example_store)
       = [TimeValue 1700000000000, TimeValue 1700000000001, TimeValue 1700000000002]"
    by (simp add: example_store_def doc_mistral_def doc_rag_def doc_chatbot_def created_def)
  have i: "map_sum id (\<lambda>sd. s_createdAt (s_metadata sd)) (serialize_document doc_rag)
       = Inr ''2023-11-14T22:13:20.001Z''"
    by code_simp
  have b: "\<exists>d\<in>set (documents bad_date_store). created d = Invalid_Date"
    by (simp add: bad_date_store_def created_def)
  from createdAt_round_trip [of example_store "\<lambda>s. Invalid_Date" "[]"] v c
  have r: "map created (documents (loadFromStorage (\<lambda>s. Invalid_Date)
          \<lparr>documents = [], localStorage = localStorage (saveToStorage example_store)\<rparr>))
       = [TimeValue 1700000000000, TimeValue 1700000000001, TimeValue 1700000000002]"
    by simp
  from createdAt_round_trip [of bad_date_store] b
  have n: "saveToStorage bad_date_store = bad_date_store"
    by blast
  from v c i r b n show ?thesis by (intro conjI)
qed

text \<open>
  The claim C8 as it is written, for every sequence of stored documents, fails on a store
  that holds a document with an Invalid Date: nothing is written, and a service that
  loads from the storage finds no document.
\<close>

theorem createdAt_invalid_date_counterexample:
  "map created (documents (loadFromStorage (\<lambda>s. Invalid_Date)
      \<lparr>documents = [], localStorage = localStorage (saveToStorage bad_date_store)\<rparr>)) = []
   \<and> map created (documents bad_date_store) = [Invalid_Date]"
  by (simp add: bad_date_store_def saveToStorage_def save_under_def serialize_document_def
        toISOString_def loadFromStorage_def load_under_def created_def)

section \<open>The document store\<close>

lemma findIndex_None: "findIndex P xs = None \<longleftrightarrow> \<not> (\<exists>x\<in>set xs. P x)"
  by (induction xs) auto

lemma findIndex_Some:
  "findIndex P xs = Some n \<Longrightarrow> n < length xs \<and> P (xs ! n) \<and> (\<forall>j<n. \<not> P (xs ! j))"
proof (induction xs arbitrary: n)
  case Nil
  then show ?case by simp
next
  case (Cons x xs)
  show ?case
  proof (cases "P x")
    case True
    with Cons.prems show ?thesis by simp
  next
    case False
    with Cons.prems obtain m where m: "findIndex P xs = Some m" "n = Suc m"
      by auto
    from Cons.IH [OF m(1)] False m(2) show ?thesis
      by (auto simp: less_Suc_eq_0_disj)
  qed
qed

lemma documents_save_under: "documents (save_under key s) = documents s"
  by (simp add: save_under_def split: sum.splits)

lemma persisted_save_under:
  "localStorage t = localStorage s \<Longrightarrow> persisted_under key s (save_under key t)"
  by (auto simp: persisted_under_def save_under_def split: sum.splits)







text \<open>
  Claim C9. For an id that is in the store, \<open>updateDocument\<close> replaces the first document
  with that id by a copy whose title and content are those of the update where it gives
  them: the id, the embedding and the metadata (source, createdAt, url, fileType) of that
  document, and every other document of the store, are as before.
\<close>

theorem updateDocument_frame: "update_contract i u s (updateDocument i u s)"
proof (cases "findIndex (\<lambda>doc. id' doc = i) (documents s)")
  case None
  then show ?thesis
    using findIndex_None [of "\<lambda>doc. id' doc = i" "documents s"]
    by (simp add: update_contract_def updateDocument_def)
next
  case (Some n)
  note n = findIndex_Some [OF Some]
  have ex: "\<exists>d\<in>set (documents s). id' d = i"
    using n nth_mem [of n "documents s"] by blast
  let ?docs' = "(documents s)[n := apply_updates (documents s ! n) u]"
  let ?s' = "saveToLocalStorage (s\<lparr>documents := ?docs'\<rparr>)"
  have r: "updateDocument i u s = (True, ?s')"
    by (simp add: updateDocument_def Some)
  have docs: "documents ?s' = ?docs'"
    by (simp add: saveToLocalStorage_def documents_save_under)
  have pers: "persisted_under ''knowledgeBase'' s ?s'"
    unfolding saveToLocalStorage_def by (rule persisted_save_under) simp
  have at: "?docs' ! n = apply_updates (documents s ! n) u"
    using n by simp
  have "\<exists>index<length (documents s).
          id' (documents s ! index) = i
          \<and> (\<forall>j<index. id' (documents s ! j) \<noteq> i)
          \<and> (\<forall>j<length (documents s). j \<noteq> index \<longrightarrow> ?docs' ! j = documents s ! j)
          \<and> id' (?docs' ! index) = id' (documents s ! index)
          \<and> embedding (?docs' ! index) = embedding (documents s ! index)
          \<and> metadata (?docs' ! index) = metadata (documents s ! index)
          \<and> title (?docs' ! index)
              = (case u_title u of None \<Rightarrow> title (documents s ! index) | Some t \<Rightarrow> t)
          \<and> content (?docs' ! index)
              = (case u_content u of None \<Rightarrow> content (documents s ! index) | Some c \<Rightarrow> c)"
  proof (intro exI [of _ n] conjI)
    show "n < length (documents s)" using n by simp
    show "id' (documents s ! n) = i" using n by simp
    show "\<forall>j<n. id' (documents s ! j) \<noteq> i" using n by simp
    show "\<forall>j<length (documents s). j \<noteq> n \<longrightarrow> ?docs' ! j = documents s ! j" by simp
  qed (use n in \<open>simp_all add: apply_updates_def\<close>)
  with ex pers show ?thesis
    unfolding update_contract_def r by (simp only: docs fst_conv snd_conv if_True length_list_update)
qed

theorem updateDocument_frame_witness:
  "(\<exists>d\<in>set (documents example_store). id' d = ''d2'')
   \<and> fst (updateDocument ''d2'' \<lparr>u_title = Some ''RAG'', u_content = None\<rparr> example_store) = True
   \<and> documents (snd (updateDocument ''d2'' \<lparr>u_title = Some ''RAG'', u_content = None\<rparr> example_store))
       = [doc_mistral, doc_rag\<lparr>title := ''RAG''\<rparr>, doc_chatbot]
   \<and> length (documents (snd (updateDocument ''d2'' \<lparr>u_title = Some ''RAG'', u_content = None\<rparr> example_store))) = 3
   \<and> updateDocument ''d9'' \<lparr>u_title = Some ''RAG'', u_content = None\<rparr> example_store
       = (False, example_store)"
proof -
  let ?u = "\<lparr>u_title = Some ''RAG'', u_content = None\<rparr>"
  have present: "\<exists>d\<in>set (documents example_store). id' d = ''d2''"
    by (simp add: example_store_def doc_rag_def)
  have absent: "\<not> (\<exists>d\<in>set (documents example_store). id' d = ''d9'')"
    by (simp add: example_store_def doc_mistral_def doc_rag_def doc_chatbot_def)
  have docs: "documents (snd (updateDocument ''d2'' ?u example_store))
                = [doc_mistral, doc_rag\<lparr>title := ''RAG''\<rparr>, doc_chatbot]"
    by (simp add: updateDocument_def example_store_def doc_mistral_def doc_rag_def
          saveToLocalStorage_def documents_save_under apply_updates_def)
  from updateDocument_frame [of "''d2''" ?u example_store] present
  have "fst (updateDocument ''d2'' ?u example_store) = True"
    and "length (documents (snd (updateDocument ''d2'' ?u example_store)))
           = length (documents example_store)"
    by (simp_all add: update_contract_def)
  moreover from updateDocument_frame [of "''d9''" ?u example_store] absent
  have "updateDocument ''d9'' ?u example_store = (False, example_store)"
    by (simp add: update_contract_def)
  ultimately show ?thesis
    using present docs by (simp add: example_store_def)
qed

lemma kb_addDocument_validates:
  "(trim t = [] \<or> trim c = [] \<or> k_source kmd = None
      \<longrightarrow> kb_addDocument newId now t c kmd s = Inl Invalid_document_data)
   \<and> (trim t \<noteq> [] \<and> trim c \<noteq> [] \<and> k_source kmd = Some src
      \<longrightarrow> (\<exists>s'. kb_addDocument newId now t c kmd s = Inr (newId, s')
                \<and> documents s' = documents s @ [kb_new_document newId now t c src kmd]))"
proof (intro conjI impI)
  assume "trim t = [] \<or> trim c = [] \<or> k_source kmd = None"
  then show "kb_addDocument newId now t c kmd s = Inl Invalid_document_data"
    by (auto simp: kb_addDocument_def validateDocument_def truthy_def)
next
  assume a: "trim t \<noteq> [] \<and> trim c \<noteq> [] \<and> k_source kmd = Some src"
  let ?s' = "saveToLocalStorage (s\<lparr>documents := documents s @ [kb_new_document newId now t c src kmd]\<rparr>)"
  have "kb_addDocument newId now t c kmd s = Inr (newId, ?s')"
    using a by (simp add: kb_addDocument_def validateDocument_def truthy_def kb_new_document_def)
  moreover have "documents ?s' = documents s @ [kb_new_document newId now t c src kmd]"
    by (simp add: saveToLocalStorage_def documents_save_under)
  ultimately show "\<exists>s'. kb_addDocument newId now t c kmd s = Inr (newId, s')
                \<and> documents s' = documents s @ [kb_new_document newId now t c src kmd]"
    by blast
qed

lemma addDocument_never_fails:
  "\<exists>s'. addDocument newId now t c md s = (newId, s')
        \<and> length (documents s') = Suc (length (documents s))
        \<and> title (last (documents s')) = t \<and> content (last (documents s')) = trim c"
  by (simp add: addDocument_def saveToStorage_def documents_save_under)

text \<open>
  Claim C7 asks that adding a document fails, with an explicit validation failure and the
  store unchanged, when the title or the content is empty after trimming or the metadata
  have no source. \<open>addDocument\<close> of knowledgeBase.ts does so. \<open>addDocument\<close> of
  ragService.ts has no such check: called with an empty title, a content of blanks and the
  metadata \<open>{}\<close>, it appends a document with an empty title and an empty content, writes
  it to the storage, from where a new service loads it, and returns the new id. The other
  service refuses the same title and content.
\<close>

theorem addDocument_accepts_blank:
  "trim '''' = [] \<and> trim ''   '' = []
   \<and> fst (addDocument ''d4'' 5 '''' ''   '' no_metadata example_store) = ''d4''
   \<and> documents (snd (addDocument ''d4'' 5 '''' ''   '' no_metadata example_store))
       = [doc_mistral, doc_rag, doc_chatbot,
          \<lparr>id' = ''d4'', title = '''', content = '''', embedding = None,
           metadata = \<lparr>source = Some Manual, createdAt = TimeValue 5, url = None,
                        fileType = None\<rparr>\<rparr>]
   \<and> reloaded (\<lambda>x. Invalid_Date) ''mistral_knowledge_base''
        (snd (addDocument ''d4'' 5 '''' ''   '' no_metadata example_store))
       = documents (snd (addDocument ''d4'' 5 '''' ''   '' no_metadata example_store))
   \<and> kb_addDocument ''d4'' 5 '''' ''   '' upload_metadata example_store
       = Inl Invalid_document_data"
proof -
  have blank: "trim '''' = []" "trim ''   '' = []" by code_simp+
  let ?doc = "\<lparr>id' = ''d4'', title = '''', content = '''', embedding = None,
           metadata = \<lparr>source = Some Manual, createdAt = TimeValue 5, url = None,
                        fileType = None\<rparr>\<rparr>"
  let ?t = "example_store\<lparr>documents := documents example_store @ [?doc]\<rparr>"
  have a: "addDocument ''d4'' 5 '''' ''   '' no_metadata example_store
             = (''d4'', save_under ''mistral_knowledge_base'' ?t)"
    by (simp add: blank addDocument_def no_metadata_def saveToStorage_def prop_value_def)
  have docs: "documents (save_under ''mistral_knowledge_base'' ?t)
                = [doc_mistral, doc_rag, doc_chatbot, ?doc]"
    by (simp add: documents_save_under example_store_def)
  have "list_all (\<lambda>d. valid_date (created d)) (documents ?t)"
    by (simp add: example_store_def doc_mistral_def doc_rag_def doc_chatbot_def valid_date_def
          created_def maxTimeValue_def)
  then have "saved_under ''mistral_knowledge_base'' ?t (save_under ''mistral_knowledge_base'' ?t)"
    by (rule saved_save_under) simp
  then have re: "reloaded (\<lambda>x. Invalid_Date) ''mistral_knowledge_base''
                   (save_under ''mistral_knowledge_base'' ?t)
                 = documents (save_under ''mistral_knowledge_base'' ?t)"
    by (simp add: saved_under_def)
  have k: "kb_addDocument ''d4'' 5 '''' ''   '' upload_metadata example_store
             = Inl Invalid_document_data"
    by (simp add: blank kb_addDocument_def validateDocument_def truthy_def)
  show ?thesis
    unfolding a using blank docs re k by simp
qed

end
